theory Spec2Isabelle
  imports Main "HOL-Library.Word" "HOL-Library.Sublist"
begin

section \<open>Voxel grid: planes of bytes\<close>

text \<open>
  \<^verbatim>\<open>imgBufferArray\<close> is an array of \<^verbatim>\<open>Uint8Array\<close> planes. A plane is a list of
  bytes. Reading a typed array outside its length gives \<^verbatim>\<open>undefined\<close> (here \<open>None\<close>),
  inside it gives a number between 0 and 255; a write outside the length is ignored,
  a write inside stores the number modulo 256.
\<close>

type_synonym plane = "8 word list"
type_synonym grid = "plane list"
type_synonym coord = "int \<times> int \<times> int"

definition rd :: "plane \<Rightarrow> int \<Rightarrow> nat option" where
  "rd buf i = (if 0 \<le> i \<and> nat i < length buf then Some (unat (buf ! nat i)) else None)"

definition wr :: "plane \<Rightarrow> int \<Rightarrow> nat \<Rightarrow> plane" where
  "wr buf i v = (if 0 \<le> i \<and> nat i < length buf then buf[nat i := of_nat v] else buf)"

text \<open>Line 114: \<^verbatim>\<open>const unlabeled = 0, background = 1, foreground = 2, seedVal = 255\<close>.\<close>

definition unlabeled :: nat where "unlabeled = 0"
definition background :: nat where "background = 1"
definition foreground :: nat where "foreground = 2"
definition seedVal :: nat where "seedVal = 255"

section \<open>The remap of raw codes (lines 118 to 121)\<close>

definition remap :: "nat \<Rightarrow> nat" where
  "remap val = (if val = 2 then unlabeled else if val = 1 then foreground
                else if val = 0 then background else val)"

text \<open>
  \<^verbatim>\<open>for (let j=0; j<wh; j++) { const val = arr[j]; arr[j] = ... }\<close>: one pass over the
  indices below \<open>wh\<close>. Beyond the end of the array the read is \<^verbatim>\<open>undefined\<close>, which
  equals none of 2, 1, 0, and the write back is ignored.
\<close>

definition remap_at :: "plane \<Rightarrow> nat \<Rightarrow> plane" where
  "remap_at arr j = (case rd arr (int j) of None \<Rightarrow> arr | Some val \<Rightarrow> wr arr (int j) (remap val))"

definition remap_plane :: "nat \<Rightarrow> plane \<Rightarrow> plane" where
  "remap_plane wh arr = fold (\<lambda>j a. remap_at a j) [0..<wh] arr"

section \<open>Connected components (lines 132 to 194)\<close>

text \<open>
  The state of the inner \<^verbatim>\<open>while\<close> loop: the planes, the worklist \<^verbatim>\<open>seeds\<close>, and a
  history of every coordinate ever pushed (a ghost field, the source keeps no such list).
  The source pushes three numbers \<open>xp, yp, zp\<close> at the end of a flat array and pops
  three from the end; here a worklist entry is one triple and the top of the stack is
  the head of the list.
\<close>

record fstate =
  bufs :: grid
  seeds :: "coord list"
  pushed :: "coord list"

text \<open>
  The body shared by the three unrolled tests:
  \<^verbatim>\<open>if (bufzp[ypw + xp] == foreground) { seeds.push(xp, yp, zp); bufzp[ypw + xp] = seedVal; }\<close>
  with \<^verbatim>\<open>bufzp = imgBufferArray[zp]\<close> and \<^verbatim>\<open>ypw = yp*imgWidth\<close>. The source indexes
  \<^verbatim>\<open>imgBufferArray\<close> only with a \<open>zp\<close> it has tested to lie between 0 and \<^verbatim>\<open>numImgs\<close>, or
  with the \<open>z\<close> of a popped coordinate, which passed that test when it was pushed.
\<close>

definition visit :: "nat \<Rightarrow> coord \<Rightarrow> fstate \<Rightarrow> fstate" where
  "visit W p s = (case p of (xp, yp, zp) \<Rightarrow>
     if rd (bufs s ! nat zp) (yp * int W + xp) = Some foreground
     then s\<lparr> seeds := p # seeds s, pushed := pushed s @ [p],
             bufs := (bufs s)[nat zp := wr (bufs s ! nat zp) (yp * int W + xp) seedVal] \<rparr>
     else s)"

text \<open>Lines 160 to 180: the three tests for \<open>seedX - 1\<close>, \<open>seedX\<close>, \<open>seedX + 1\<close>.\<close>

definition visit_row :: "nat \<Rightarrow> int \<Rightarrow> int \<Rightarrow> int \<Rightarrow> fstate \<Rightarrow> fstate" where
  "visit_row W seedX yp zp s =
     (let s1 = (if seedX - 1 \<ge> 0 then visit W (seedX - 1, yp, zp) s else s);
          s2 = visit W (seedX, yp, zp) s1
      in if seedX + 1 < int W then visit W (seedX + 1, yp, zp) s2 else s2)"

text \<open>Lines 153 to 181: \<^verbatim>\<open>for (var dy=-1; dy<=1; dy++)\<close>.\<close>

definition visit_dy :: "nat \<Rightarrow> nat \<Rightarrow> int \<Rightarrow> int \<Rightarrow> int \<Rightarrow> fstate \<Rightarrow> fstate" where
  "visit_dy W H seedX seedY zp s =
     fold (\<lambda>dy s. let yp = seedY + dy in
                  if yp < 0 \<or> yp \<ge> int H then s else visit_row W seedX yp zp s)
          [-1, 0, 1] s"

text \<open>Lines 148 to 182: \<^verbatim>\<open>for (var dz=-1; dz<=1; dz++)\<close>.\<close>

definition visit_dz :: "nat \<Rightarrow> nat \<Rightarrow> nat \<Rightarrow> coord \<Rightarrow> fstate \<Rightarrow> fstate" where
  "visit_dz W H N p s = (case p of (seedX, seedY, seedZ) \<Rightarrow>
     fold (\<lambda>dz s. let zp = seedZ + dz in
                  if zp < 0 \<or> zp \<ge> int N then s else visit_dy W H seedX seedY zp s)
          [-1, 0, 1] s)"

text \<open>
  One turn of the \<^verbatim>\<open>while\<close> loop (lines 144 to 182): pop a coordinate, store
  \<^verbatim>\<open>compValue\<close> there, look at the neighbours. It is only run on a non-empty worklist.
\<close>

definition flood_step :: "nat \<Rightarrow> nat \<Rightarrow> nat \<Rightarrow> nat \<Rightarrow> fstate \<Rightarrow> fstate" where
  "flood_step W H N compValue s = (case seeds s of
       [] \<Rightarrow> s
     | (seedX, seedY, seedZ) # rest \<Rightarrow>
         visit_dz W H N (seedX, seedY, seedZ)
           (s\<lparr> seeds := rest,
               bufs := (bufs s)[nat seedZ :=
                          wr (bufs s ! nat seedZ) (seedY * int W + seedX) compValue] \<rparr>))"

text \<open>
  \<^verbatim>\<open>while (seeds.length > 0) { ... }\<close>. Nothing in the loop itself bounds the number of
  turns, so the loop is a partial function: \<open>None\<close> stands for a loop that never ends.
\<close>

partial_function (option) flood :: "nat \<Rightarrow> nat \<Rightarrow> nat \<Rightarrow> nat \<Rightarrow> fstate \<Rightarrow> fstate option" where
  "flood W H N compValue s =
     (if seeds s = [] then Some s else flood W H N compValue (flood_step W H N compValue s))"

declare flood.simps [code]

text \<open>
  The three \<^verbatim>\<open>for\<close> loops of lines 133 to 136 visit the coordinates in the order
  z, then y, then x.
\<close>

definition raster :: "nat \<Rightarrow> nat \<Rightarrow> nat \<Rightarrow> (nat \<times> nat \<times> nat) list" where
  "raster W H N = concat (map (\<lambda>z. concat (map (\<lambda>y. map (\<lambda>x. (x, y, z)) [0..<W]) [0..<H])) [0..<N])"

text \<open>
  The outcome of the scan: it ran to the end with the planes and the counter, or the
  counter reached \<^verbatim>\<open>seedVal\<close> and the function left at line 185.
\<close>

datatype scan_result = Finished grid nat | Capacity grid nat

fun scan :: "nat \<Rightarrow> nat \<Rightarrow> nat \<Rightarrow> (nat \<times> nat \<times> nat) list \<Rightarrow> grid \<Rightarrow> nat \<Rightarrow> scan_result option" where
  "scan W H N [] g compValue = Some (Finished g compValue)"
| "scan W H N ((x, y, z) # ps) g compValue =
     (let nxy = int (y * W + x) in
      if rd (g ! z) nxy \<noteq> Some foreground then scan W H N ps g compValue
      else
        (case flood W H N compValue
                \<lparr> bufs = g[z := wr (g ! z) nxy seedVal],
                  seeds = [(int x, int y, int z)],
                  pushed = [(int x, int y, int z)] \<rparr> of
           None \<Rightarrow> None
         | Some s \<Rightarrow>
             (let compValue' = compValue + 1 in
              if compValue' \<ge> seedVal then Some (Capacity (bufs s) compValue')
              else scan W H N ps (bufs s) compValue')))"

text \<open>Line 132, \<^verbatim>\<open>let compValue = 3\<close>, with \<^verbatim>\<open>numImgs\<close> the number of planes.\<close>

definition label_pass :: "nat \<Rightarrow> nat \<Rightarrow> grid \<Rightarrow> scan_result option" where
  "label_pass W H g = scan W H (length g) (raster W H (length g)) g 3"

section \<open>The loader object and its surroundings\<close>

text \<open>
  The items of the file list are told apart by \<^verbatim>\<open>instanceof\<close> only.
\<close>

datatype item = File | FileSystemFileHandle | OtherItem

text \<open>
  What a completion callback can read off the loader it is handed.
\<close>

record report =
  r_done :: bool
  r_errors :: "string option"
  r_warnings :: "string option"
  r_numLabelsFound :: nat

text \<open>
  Calls that leave the loader: the two callbacks, the start of a read
  (\<^verbatim>\<open>getFile()\<close> on a handle, \<^verbatim>\<open>readAsArrayBuffer\<close> on a file), and the calls on the
  volume.
\<close>

datatype event =
    ProgressCb nat nat
  | CompleteCb report
  | GetFile
  | ReadAsArrayBuffer
  | LoadBegin nat nat nat nat
  | CopyImagesToTexture grid
  | LoadEnd

text \<open>
  The fields of \<^verbatim>\<open>this\<close>; \<open>done'\<close> is the field \<^verbatim>\<open>done\<close>. A callback is represented by
  whether one was supplied. \<open>log\<close> is a ghost field: the calls made since the load
  request, oldest first.
\<close>

record loader =
  fileList :: "item list"
  errors :: "string option"
  warnings :: "string option"
  done' :: bool
  cancelled :: bool
  loadCompleteCb :: bool
  loadProgressCb :: bool
  numLabelsFound :: nat
  log :: "event list"

text \<open>
  One decoded page (\<^verbatim>\<open>ifds[z]\<close>): its size, the first entry of tag 258 (bits per sample),
  and what \<^verbatim>\<open>UTIF.decodeImage\<close> does on it: it throws a value with a message, or leaves
  the bytes of \<^verbatim>\<open>data.buffer\<close>. Each page has a buffer of its own.
\<close>

record ifd =
  width :: nat
  height :: nat
  t258 :: nat
  data :: "string + plane"

datatype decode_outcome = DecodeRaises | Ifds "ifd list"

datatype read_outcome = Loaded | ReadFailed

text \<open>
  Everything outside this file that the loader meets during one session:
  \<^item> whether the bytes arrive (\<^verbatim>\<open>onload\<close>) or not (\<^verbatim>\<open>onerror\<close>, or \<^verbatim>\<open>getFile()\<close> rejects);
  \<^item> what \<^verbatim>\<open>UTIF.decode\<close> returns;
  \<^item> \<open>cancel_at e k\<close>: whether other code sets \<^verbatim>\<open>this.cancelled\<close> during the \<open>k\<close>-th
    span in which other code can run. Span 0 lasts from the load request until the
    bytes have arrived; span \<open>z + 1\<close> is the progress callback for page \<open>z\<close> and the
    \<^verbatim>\<open>setTimeout\<close> pause after it. JavaScript runs one thing at a time, so the flag
    cannot change anywhere else;
  \<^item> what \<^verbatim>\<open>vol.loadBegin\<close> returns, and whether \<^verbatim>\<open>_copyImagesToTexture\<close> (a method of
    the base class) marks the loader done;
  \<^item> whether any script of the page declares a global \<^verbatim>\<open>tooManyComponents\<close>: this file
    declares none and runs in strict mode (line 2), where an assignment to an undeclared
    name throws a \<^verbatim>\<open>ReferenceError\<close>; the message of that error and of the
    \<^verbatim>\<open>TypeError\<close> for reading a property of \<^verbatim>\<open>undefined\<close> are the engine's.
  Callbacks, \<^verbatim>\<open>vol.loadBegin\<close>, \<^verbatim>\<open>vol.loadEnd\<close> and \<^verbatim>\<open>_copyImagesToTexture\<close> are taken not
  to throw and not to start another load, and other code is taken to set the cancellation
  flag, never to clear it, while a session runs.
\<close>

record env =
  reading :: read_outcome
  decoding :: decode_outcome
  cancel_at :: "nat \<Rightarrow> bool"
  loadBegin_result :: "string option"
  copy_marks_done :: bool
  tooManyComponents_declared :: bool
  ReferenceError_message :: string
  TypeError_message :: string

definition emit :: "event \<Rightarrow> loader \<Rightarrow> loader" where
  "emit ev this = this\<lparr> log := log this @ [ev] \<rparr>"

text \<open>
  \<^verbatim>\<open>BigLime.Utils.SafeInvoke(f, args)\<close> belongs to a library: it is taken to call \<open>f\<close>
  when there is one and to do nothing otherwise.
\<close>

definition report_of :: "loader \<Rightarrow> report" where
  "report_of this = \<lparr> r_done = done' this, r_errors = errors this,
                      r_warnings = warnings this, r_numLabelsFound = numLabelsFound this \<rparr>"

definition SafeInvoke_complete :: "loader \<Rightarrow> loader" where
  "SafeInvoke_complete this =
     (if loadCompleteCb this then emit (CompleteCb (report_of this)) this else this)"

definition SafeInvoke_progress :: "nat \<Rightarrow> nat \<Rightarrow> loader \<Rightarrow> loader" where
  "SafeInvoke_progress a b this =
     (if loadProgressCb this then emit (ProgressCb a b) this else this)"

text \<open>A span in which other code runs: the flag may get set.\<close>

definition suspend :: "env \<Rightarrow> nat \<Rightarrow> loader \<Rightarrow> loader" where
  "suspend e k this = this\<lparr> cancelled := cancelled this \<or> cancel_at e k \<rparr>"

section \<open>\<^verbatim>\<open>_onImageLoadingError\<close> (lines 226 to 241)\<close>

text \<open>
  The argument is the \<^verbatim>\<open>FileReader\<close>, which has no \<^verbatim>\<open>fileName\<close>, or a thrown value with
  its message (empty when it has none).
\<close>

datatype error_arg = Reader | Thrown string

definition onImageLoadingError :: "error_arg \<Rightarrow> loader \<Rightarrow> loader" where
  "onImageLoadingError arg this =
     (if cancelled this \<or> done' this then this
      else SafeInvoke_complete
             (this\<lparr> done' := True,
                    errors := Some (case arg of
                                      Reader \<Rightarrow> ''Error loading image ''
                                    | Thrown m \<Rightarrow> if m \<noteq> [] then m else ''Error loading image.'') \<rparr>))"

section \<open>\<^verbatim>\<open>loadImagesIntoVolume\<close> (lines 34 to 81)\<close>

text \<open>
  The result says whether a read was started. \<^verbatim>\<open>this.cancelled\<close> is not among the fields
  the function resets.
\<close>

definition loadImagesIntoVolume :: "item list \<Rightarrow> bool \<Rightarrow> bool \<Rightarrow> loader \<Rightarrow> loader \<times> bool" where
  "loadImagesIntoVolume imgFiles completionCb progressCb this0 =
     (let this = this0\<lparr> fileList := imgFiles, errors := None, warnings := None, done' := False,
                        loadCompleteCb := completionCb, loadProgressCb := progressCb,
                        numLabelsFound := 0, log := [] \<rparr>
      in if fileList this = [] then
           (SafeInvoke_complete
              (this\<lparr> done' := True,
                     warnings := Some ''LabelLoader: No files were loaded, because the supplied file list was empty.'' \<rparr>),
            False)
         else if list_ex (\<lambda>f. f \<noteq> FileSystemFileHandle \<and> f \<noteq> File) (fileList this) then
           (SafeInvoke_complete
              (this\<lparr> done' := True, errors := Some ''LabelLoader: Invalid item in file list.'' \<rparr>),
            False)
         else
           (let this1 = SafeInvoke_progress 0 (length (fileList this)) this
            in (if hd (fileList this1) = FileSystemFileHandle then emit GetFile this1
                else emit ReadAsArrayBuffer this1, True)))"

section \<open>\<^verbatim>\<open>_handleMultiImageTiff\<close> (lines 89 to 218)\<close>

text \<open>
  Lines 115 to 129, from page \<open>z\<close> on, with the planes collected so far. \<open>Inl\<close> is a
  \<^verbatim>\<open>return\<close> or an exception caught at line 215, \<open>Inr\<close> the end of the loop. The
  progress call, the pause and the test of the flag happen only when a progress callback
  was given (line 124).
\<close>

fun decode_frames :: "env \<Rightarrow> nat \<Rightarrow> nat \<Rightarrow> nat \<Rightarrow> ifd list \<Rightarrow> grid \<Rightarrow> loader \<Rightarrow> loader + (grid \<times> loader)" where
  "decode_frames e wh numImgs z [] imgBufferArray this = Inr (imgBufferArray, this)"
| "decode_frames e wh numImgs z (f # fs) imgBufferArray this =
     (case data f of
        Inl m \<Rightarrow> Inl (onImageLoadingError (Thrown m) this)
      | Inr buffer \<Rightarrow>
          (let arr = remap_plane wh buffer; imgBufferArray' = imgBufferArray @ [arr] in
           if loadProgressCb this then
             (let this1 = suspend e (z + 1) (SafeInvoke_progress z numImgs this) in
              if cancelled this1 then Inl this1
              else decode_frames e wh numImgs (z + 1) fs imgBufferArray' this1)
           else decode_frames e wh numImgs (z + 1) fs imgBufferArray' this))"

text \<open>
  Lines 186 to 190, entered when the counter has reached \<^verbatim>\<open>seedVal\<close>. Line 186 assigns to
  \<^verbatim>\<open>tooManyComponents\<close>: with a global of that name the lines that follow run; without
  one the assignment throws and the \<^verbatim>\<open>catch\<close> of line 215 calls the error handler.
\<close>

definition capacity_exit :: "env \<Rightarrow> loader \<Rightarrow> loader" where
  "capacity_exit e this =
     (if tooManyComponents_declared e then
        SafeInvoke_complete
          (this\<lparr> errors := Some ''LabelLoader: Volume has too many connected components.'',
                 done' := True \<rparr>)
      else onImageLoadingError (Thrown (ReferenceError_message e)) this)"

text \<open>
  Lines 197 to 213: \<^verbatim>\<open>loadBegin\<close>, the copy of the planes, \<^verbatim>\<open>loadEnd\<close>. A string is truthy
  when it is not empty.
\<close>

definition truthy :: "string option \<Rightarrow> bool" where
  "truthy r = (case r of None \<Rightarrow> False | Some m \<Rightarrow> m \<noteq> [])"

definition upload :: "env \<Rightarrow> nat \<Rightarrow> nat \<Rightarrow> nat \<Rightarrow> nat \<Rightarrow> grid \<Rightarrow> loader \<Rightarrow> loader" where
  "upload e imgWidth imgHeight numImgs bpp imgBufferArray this =
     (let this1 = emit (LoadBegin imgWidth imgHeight numImgs bpp)
                       (this\<lparr> errors := loadBegin_result e \<rparr>)
      in if truthy (errors this1) then SafeInvoke_complete (this1\<lparr> done' := True \<rparr>)
         else
           (let this2 = emit (CopyImagesToTexture imgBufferArray) this1;
                this3 = (if copy_marks_done e then this2\<lparr> done' := True \<rparr> else this2)
            in if \<not> done' this3 then SafeInvoke_complete (emit LoadEnd (this3\<lparr> done' := True \<rparr>))
               else this3))"

text \<open>Lines 131 to 213: the labeling pass, then line 195 and the upload.\<close>

definition label_and_upload :: "env \<Rightarrow> nat \<Rightarrow> nat \<Rightarrow> nat \<Rightarrow> grid \<Rightarrow> loader \<Rightarrow> loader option" where
  "label_and_upload e imgWidth imgHeight bpp imgBufferArray this =
     (case label_pass imgWidth imgHeight imgBufferArray of
        None \<Rightarrow> None
      | Some (Capacity g compValue) \<Rightarrow> Some (capacity_exit e this)
      | Some (Finished g compValue) \<Rightarrow>
          Some (upload e imgWidth imgHeight (length imgBufferArray) bpp g
                  (this\<lparr> numLabelsFound := compValue - 3 \<rparr>)))"

text \<open>
  The whole function. \<^verbatim>\<open>UTIF.decode\<close> is called outside the \<^verbatim>\<open>try\<close>: when it throws,
  nothing more happens. With no page at all, reading \<^verbatim>\<open>ifds[0]\<close> throws inside the
  \<^verbatim>\<open>try\<close>.
\<close>

definition handleMultiImageTiff :: "env \<Rightarrow> loader \<Rightarrow> loader option" where
  "handleMultiImageTiff e this =
     (if cancelled this then Some this
      else case decoding e of
        DecodeRaises \<Rightarrow> Some this
      | Ifds ifds \<Rightarrow>
          (case ifds of
             [] \<Rightarrow> Some (onImageLoadingError (Thrown (TypeError_message e)) this)
           | ifd0 # _ \<Rightarrow>
               (case data ifd0 of
                  Inl m \<Rightarrow> Some (onImageLoadingError (Thrown m) this)
                | Inr _ \<Rightarrow>
                    (let imgWidth = width ifd0; imgHeight = height ifd0;
                         numImgs = length ifds; bpp = t258 ifd0; wh = imgWidth * imgHeight
                     in if bpp \<noteq> 8 then
                          Some (SafeInvoke_complete
                                  (this\<lparr> errors := Some ''LabelLoader: Only 8-bit images are supported.'',
                                         done' := True \<rparr>))
                        else
                          (case decode_frames e wh numImgs 0 ifds [] this of
                             Inl this' \<Rightarrow> Some this'
                           | Inr (imgBufferArray, this') \<Rightarrow>
                               label_and_upload e imgWidth imgHeight bpp imgBufferArray this')))))"

section \<open>A whole session\<close>

text \<open>
  The load request, then, when a read was started, the span in which the bytes are
  fetched, then \<^verbatim>\<open>onload\<close> or the error handler.
\<close>

definition session :: "env \<Rightarrow> item list \<Rightarrow> bool \<Rightarrow> bool \<Rightarrow> loader \<Rightarrow> loader option" where
  "session e imgFiles completionCb progressCb this0 =
     (case loadImagesIntoVolume imgFiles completionCb progressCb this0 of
        (this, False) \<Rightarrow> Some this
      | (this, True) \<Rightarrow>
          (let this1 = suspend e 0 this in
           case reading e of
             Loaded \<Rightarrow> handleMultiImageTiff e this1
           | ReadFailed \<Rightarrow> Some (onImageLoadingError Reader this1)))"

text \<open>What the log says: the completion reports, the progress calls, the reads started.\<close>

definition completions :: "loader \<Rightarrow> report list" where
  "completions this = concat (map (\<lambda>ev. case ev of CompleteCb r \<Rightarrow> [r] | _ \<Rightarrow> []) (log this))"

definition progress_calls :: "loader \<Rightarrow> (nat \<times> nat) list" where
  "progress_calls this = concat (map (\<lambda>ev. case ev of ProgressCb a b \<Rightarrow> [(a, b)] | _ \<Rightarrow> []) (log this))"

definition reads_started :: "loader \<Rightarrow> nat" where
  "reads_started this = length (filter (\<lambda>ev. ev = GetFile \<or> ev = ReadAsArrayBuffer) (log this))"

section \<open>Notions used to state the properties\<close>

text \<open>
  A coordinate is inside the grid when each component is inside its axis. The value of
  a voxel is what the source reads at \<^verbatim>\<open>imgBufferArray[z][y*imgWidth + x]\<close>, and \<open>put\<close>
  is the store at that place.
\<close>

definition inb :: "nat \<Rightarrow> nat \<Rightarrow> nat \<Rightarrow> coord \<Rightarrow> bool" where
  "inb W H N p = (case p of (x, y, z) \<Rightarrow>
     0 \<le> x \<and> x < int W \<and> 0 \<le> y \<and> y < int H \<and> 0 \<le> z \<and> z < int N)"

definition vox :: "nat \<Rightarrow> grid \<Rightarrow> coord \<Rightarrow> nat option" where
  "vox W g p = (case p of (x, y, z) \<Rightarrow> rd (g ! nat z) (y * int W + x))"

definition put :: "nat \<Rightarrow> grid \<Rightarrow> coord \<Rightarrow> nat \<Rightarrow> grid" where
  "put W g p v = (case p of (x, y, z) \<Rightarrow> g[nat z := wr (g ! nat z) (y * int W + x) v])"

text \<open>
  The coordinates looked at by lines 148 to 182, in the order the source looks at them.
\<close>

definition row_nbrs :: "nat \<Rightarrow> int \<Rightarrow> int \<Rightarrow> int \<Rightarrow> coord list" where
  "row_nbrs W sx yp zp =
     (if sx - 1 \<ge> 0 then [(sx - 1, yp, zp)] else []) @ [(sx, yp, zp)] @
     (if sx + 1 < int W then [(sx + 1, yp, zp)] else [])"

definition plane_nbrs :: "nat \<Rightarrow> nat \<Rightarrow> int \<Rightarrow> int \<Rightarrow> int \<Rightarrow> coord list" where
  "plane_nbrs W H sx sy zp =
     concat (map (\<lambda>dy. if sy + dy < 0 \<or> sy + dy \<ge> int H then [] else row_nbrs W sx (sy + dy) zp)
                 [-1, 0, 1])"

definition nbrs :: "nat \<Rightarrow> nat \<Rightarrow> nat \<Rightarrow> coord \<Rightarrow> coord list" where
  "nbrs W H N p = (case p of (sx, sy, sz) \<Rightarrow>
     concat (map (\<lambda>dz. if sz + dz < 0 \<or> sz + dz \<ge> int N then [] else plane_nbrs W H sx sy (sz + dz))
                 [-1, 0, 1]))"

text \<open>The 26-neighbourhood (a coordinate also counts as adjacent to itself).\<close>

definition adj :: "coord \<Rightarrow> coord \<Rightarrow> bool" where
  "adj p q = (case p of (x, y, z) \<Rightarrow> case q of (x', y', z') \<Rightarrow>
     \<bar>x' - x\<bar> \<le> 1 \<and> \<bar>y' - y\<bar> \<le> 1 \<and> \<bar>z' - z\<bar> \<le> 1)"

text \<open>
  The number of bytes equal to 2 in all planes, and the quantity that goes down with
  every turn of the worklist loop.
\<close>

definition fgc :: "grid \<Rightarrow> nat" where
  "fgc g = sum_list (map (\<lambda>pl. count_list pl 2) g)"

definition work :: "fstate \<Rightarrow> nat" where
  "work s = 2 * fgc (bufs s) + length (seeds s)"

text \<open>
  What stays true of the worklist loop: every entry of the worklist was pushed, nothing
  was pushed twice, nothing is on the worklist twice, and no pushed coordinate still holds
  the foreground value.
\<close>

definition tidy :: "nat \<Rightarrow> nat \<Rightarrow> nat \<Rightarrow> fstate \<Rightarrow> bool" where
  "tidy W H N s \<longleftrightarrow>
     length (bufs s) = N \<and> distinct (pushed s) \<and> distinct (seeds s) \<and>
     set (seeds s) \<subseteq> set (pushed s) \<and>
     (\<forall>p \<in> set (pushed s). inb W H N p \<and> vox W (bufs s) p \<noteq> Some foreground)"

text \<open>The state built by lines 139 and 140 for a start coordinate \<open>p\<close>.\<close>

definition seeded :: "nat \<Rightarrow> grid \<Rightarrow> coord \<Rightarrow> fstate" where
  "seeded W g p = \<lparr> bufs = put W g p seedVal, seeds = [p], pushed = [p] \<rparr>"

definition ic :: "nat \<times> nat \<times> nat \<Rightarrow> coord" where
  "ic p = (case p of (x, y, z) \<Rightarrow> (int x, int y, int z))"

definition in_grid :: "nat \<Rightarrow> nat \<Rightarrow> nat \<Rightarrow> (nat \<times> nat \<times> nat) list \<Rightarrow> bool" where
  "in_grid W H N ps \<longleftrightarrow> (\<forall>p \<in> set ps. inb W H N (ic p))"

text \<open>
  The foreground voxels of a grid, and the maximal 26-connected region of a set \<open>F\<close> of
  voxels around \<open>p\<close>: everything reached from \<open>p\<close> by steps between adjacent voxels of
  \<open>F\<close>.
\<close>

definition fgset :: "nat \<Rightarrow> nat \<Rightarrow> grid \<Rightarrow> coord set" where
  "fgset W H g = {p. inb W H (length g) p \<and> vox W g p = Some foreground}"

inductive_set region :: "coord set \<Rightarrow> coord \<Rightarrow> coord set" for F :: "coord set" and p :: coord where
  start: "p \<in> F \<Longrightarrow> p \<in> region F p"
| step: "q \<in> region F p \<Longrightarrow> r \<in> F \<Longrightarrow> adj q r \<Longrightarrow> r \<in> region F p"

text \<open>
  What stays true of the fill of one component that starts at \<open>p0\<close> on the planes \<open>g0\<close>
  with the counter at \<open>c\<close>: only voxels of the region of \<open>p0\<close> are pushed; a voxel on the
  worklist holds the seed value, a pushed voxel that left the worklist holds \<open>c\<close>, every
  other voxel holds what it held in \<open>g0\<close>; and every foreground neighbour of a voxel that
  left the worklist has been pushed.
\<close>

definition painted :: "nat \<Rightarrow> nat \<Rightarrow> grid \<Rightarrow> coord \<Rightarrow> nat \<Rightarrow> fstate \<Rightarrow> bool" where
  "painted W H g0 p0 c s \<longleftrightarrow>
     tidy W H (length g0) s \<and> p0 \<in> set (pushed s) \<and>
     set (pushed s) \<subseteq> region (fgset W H g0) p0 \<and>
     (\<forall>q. inb W H (length g0) q \<longrightarrow>
        vox W (bufs s) q = (if q \<in> set (seeds s) then Some seedVal
                            else if q \<in> set (pushed s) then Some c else vox W g0 q))"

definition settled :: "nat \<Rightarrow> nat \<Rightarrow> grid \<Rightarrow> fstate \<Rightarrow> coord set \<Rightarrow> bool" where
  "settled W H g0 s D \<longleftrightarrow> (\<forall>q \<in> D. \<forall>r \<in> fgset W H g0. adj q r \<longrightarrow> r \<in> set (pushed s))"

definition fill_inv :: "nat \<Rightarrow> nat \<Rightarrow> grid \<Rightarrow> coord \<Rightarrow> nat \<Rightarrow> fstate \<Rightarrow> bool" where
  "fill_inv W H g0 p0 c s \<longleftrightarrow>
     painted W H g0 p0 c s \<and> settled W H g0 s (set (pushed s) - set (seeds s))"

text \<open>
  The parts of a scan result.
\<close>

fun planes_of :: "scan_result \<Rightarrow> grid" where
  "planes_of (Finished g c) = g"
| "planes_of (Capacity g c) = g"

fun counter_of :: "scan_result \<Rightarrow> nat" where
  "counter_of (Finished g c) = c"
| "counter_of (Capacity g c) = c"

fun finished :: "scan_result \<Rightarrow> bool" where
  "finished (Finished g c) = True"
| "finished (Capacity g c) = False"

text \<open>
  The state of the scan, told with a list \<open>ss\<close> of the start voxels found so far (the
  source keeps no such list): the regions of the start voxels are pairwise disjoint, the
  voxels of the \<open>i\<close>-th region hold \<open>3 + i\<close>, every voxel outside these regions holds what it
  held at the start. \<open>covers\<close> says that every foreground voxel of a set lies in one of
  the regions.
\<close>

definition labelled :: "nat \<Rightarrow> nat \<Rightarrow> grid \<Rightarrow> coord list \<Rightarrow> grid \<Rightarrow> bool" where
  "labelled W H g0 ss g \<longleftrightarrow>
     length g = length g0 \<and>
     (\<forall>i < length ss. ss ! i \<in> fgset W H g0) \<and>
     (\<forall>i < length ss. \<forall>j < length ss. i \<noteq> j \<longrightarrow>
        region (fgset W H g0) (ss ! i) \<inter> region (fgset W H g0) (ss ! j) = {}) \<and>
     (\<forall>i < length ss. \<forall>q \<in> region (fgset W H g0) (ss ! i). vox W g q = Some (3 + i)) \<and>
     (\<forall>q. inb W H (length g0) q \<and> (\<forall>i < length ss. q \<notin> region (fgset W H g0) (ss ! i)) \<longrightarrow>
        vox W g q = vox W g0 q)"

definition covers :: "nat \<Rightarrow> nat \<Rightarrow> grid \<Rightarrow> coord list \<Rightarrow> coord set \<Rightarrow> bool" where
  "covers W H g0 ss D \<longleftrightarrow>
     (\<forall>q \<in> D \<inter> fgset W H g0. \<exists>i < length ss. q \<in> region (fgset W H g0) (ss ! i))"

definition outcome :: "nat \<Rightarrow> nat \<Rightarrow> grid \<Rightarrow> coord list \<Rightarrow> scan_result \<Rightarrow> coord list \<Rightarrow> bool" where
  "outcome W H g0 order res ss \<longleftrightarrow>
     labelled W H g0 ss (planes_of res) \<and> counter_of res = 3 + length ss \<and>
     subseq ss order \<and>
     (if finished res then counter_of res < 255 \<and> covers W H g0 ss (set order)
      else counter_of res = 255)"

text \<open>
  A block of \<open>a\<close> by \<open>b\<close> by \<open>n\<close> voxels with its corner at \<open>(x0, y0, z0)\<close>, the distance
  used to walk through it, and the calls of \<^verbatim>\<open>_copyImagesToTexture\<close> with the planes they
  were given.
\<close>

definition box :: "nat \<Rightarrow> nat \<Rightarrow> nat \<Rightarrow> nat \<Rightarrow> nat \<Rightarrow> nat \<Rightarrow> coord set" where
  "box x0 y0 z0 a b n = {(x, y, z). int x0 \<le> x \<and> x < int x0 + int a \<and>
                                    int y0 \<le> y \<and> y < int y0 + int b \<and>
                                    int z0 \<le> z \<and> z < int z0 + int n}"

definition dist3 :: "coord \<Rightarrow> coord \<Rightarrow> nat" where
  "dist3 p q = (case p of (x, y, z) \<Rightarrow> case q of (x', y', z') \<Rightarrow>
     nat \<bar>x' - x\<bar> + nat \<bar>y' - y\<bar> + nat \<bar>z' - z\<bar>)"

definition uploads :: "loader \<Rightarrow> grid list" where
  "uploads this = concat (map (\<lambda>ev. case ev of CopyImagesToTexture g \<Rightarrow> [g] | _ \<Rightarrow> []) (log this))"

text \<open>
  The planes that lines 113 to 121 build from the decoded pages, with \<open>wh\<close> taken from
  the first page.
\<close>

definition remapped :: "ifd list \<Rightarrow> grid" where
  "remapped ifds = map (\<lambda>f. remap_plane (width (hd ifds) * height (hd ifds)) (projr (data f))) ifds"

text \<open>
  The file lists that pass the two tests of lines 48 and 56: not empty, and every item a
  \<^verbatim>\<open>File\<close> or a \<^verbatim>\<open>FileSystemFileHandle\<close>.
\<close>

definition valid_items :: "item list \<Rightarrow> bool" where
  "valid_items imgFiles \<longleftrightarrow> imgFiles \<noteq> [] \<and> list_all (\<lambda>f. f = FileSystemFileHandle \<or> f = File) imgFiles"


definition env_plain :: "decode_outcome \<Rightarrow> env" where
  "env_plain d = \<lparr> reading = Loaded, decoding = d, cancel_at = (\<lambda>k. False),
                   loadBegin_result = None, copy_marks_done = False,
                   tooManyComponents_declared = False,
                   ReferenceError_message = ''tooManyComponents is not defined'',
                   TypeError_message = ''Cannot read properties of undefined'' \<rparr>"

definition loader_new :: loader where
  "loader_new = \<lparr> fileList = [], errors = None, warnings = None, done' = True,
                  cancelled = False, loadCompleteCb = False, loadProgressCb = False,
                  numLabelsFound = 0, log = [] \<rparr>"

text \<open>A loader in the middle of a session: a read was started, a completion callback given.\<close>

definition loader_busy :: loader where
  "loader_busy = loader_new\<lparr> fileList := [File], done' := False, loadCompleteCb := True,
                             log := [ReadAsArrayBuffer] \<rparr>"

definition ifd_1x1 :: "8 word \<Rightarrow> ifd" where
  "ifd_1x1 b = \<lparr> width = 1, height = 1, t258 = 8, data = Inr [b] \<rparr>"

definition env_cancel_page0 :: env where
  "env_cancel_page0 = (env_plain (Ifds [ifd_1x1 1, ifd_1x1 0]))\<lparr> cancel_at := (\<lambda>k. k = 1) \<rparr>"


definition grid_block :: grid where
  "grid_block = [[2, 2, 2, 2], [2, 2, 2, 2]]"


text \<open>
  A stack of 503 pages of one pixel each, the pages with an even index holding the raw
  code 1 (foreground after the remap) and the others the raw code 0: 252 foreground voxels,
  no two of them adjacent. \<open>grid_252\<close> is what the remap makes of these pages.
\<close>

definition grid_252 :: grid where
  "grid_252 = map (\<lambda>z. [if even z then 2 else 1]) [0..<503]"

definition pages_252 :: "ifd list" where
  "pages_252 = map (\<lambda>z. ifd_1x1 (if even z then 1 else 0)) [0..<503]"

definition env_252 :: env where
  "env_252 = env_plain (Ifds pages_252)"

section \<open>Lemmas\<close>

subsection \<open>Bytes, planes and voxels\<close>

text \<open>
  A store changes the voxel it is aimed at and no other: inside a row of width \<open>W\<close> the
  index \<open>y * W + x\<close> determines \<open>x\<close> and \<open>y\<close>.
\<close>

lemma length_wr [simp]: "length (wr buf i v) = length buf"
  by (simp add: wr_def)

lemma length_put [simp]: "length (put W g p v) = length g"
  by (simp add: put_def split: prod.splits)


lemma unat_of_nat_byte: "unat (of_nat v :: 8 word) = v mod 256"
  by (simp add: unat_of_nat take_bit_eq_mod)

lemma rd_wr:
  "rd (wr buf i v) j = (if j = i \<and> rd buf i \<noteq> None then Some (v mod 256) else rd buf j)"
  by (auto simp: rd_def wr_def unat_of_nat_byte)

lemma index_inj:
  fixes x y x' y' :: int
  assumes "0 \<le> x" "x < int W" "0 \<le> x'" "x' < int W" "y * int W + x = y' * int W + x'"
  shows "x = x' \<and> y = y'"
proof -
  have W: "0 < int W" using assms by linarith
  have "(y * int W + x) mod int W = x" "(y' * int W + x') mod int W = x'"
    using assms(1-4) by simp_all
  with assms(5) have x: "x = x'" by metis
  with assms have "y * int W = y' * int W" by simp
  with W have "y = y'" by simp
  with x show ?thesis by simp
qed

lemma vox_put:
  assumes "inb W H (length g) p" "inb W H (length g) q"
  shows "vox W (put W g p v) q =
           (if q = p \<and> vox W g p \<noteq> None then Some (v mod 256) else vox W g q)"
proof -
  obtain x y z where p: "p = (x, y, z)" by (cases p)
  obtain x' y' z' where q: "q = (x', y', z')" by (cases q)
  show ?thesis
  proof (cases "z' = z")
    case True
    have "y' * int W + x' = y * int W + x \<longleftrightarrow> (x', y') = (x, y)"
      using index_inj [of x' W x y' y] assms by (auto simp: p q inb_def)
    then show ?thesis using assms True
      by (auto simp: p q inb_def vox_def put_def rd_wr)
  next
    case False
    then have "nat z' \<noteq> nat z" using assms by (auto simp: p q inb_def)
    then show ?thesis using assms False
      by (auto simp: p q inb_def vox_def put_def)
  qed
qed

subsection \<open>The neighbours one turn looks at\<close>

text \<open>
  The three nested loops of lines 148 to 182 visit the list \<open>nbrs\<close>, which holds exactly
  the coordinates inside the grid that are adjacent to the popped one.
\<close>

lemma visit_alt:
  "visit W p s =
     (if vox W (bufs s) p = Some foreground
      then s\<lparr> seeds := p # seeds s, pushed := pushed s @ [p], bufs := put W (bufs s) p seedVal \<rparr>
      else s)"
  by (simp add: visit_def vox_def put_def split: prod.splits)

lemma flood_step_alt:
  "seeds s = p # rest \<Longrightarrow>
   flood_step W H N c s = visit_dz W H N p (s\<lparr> seeds := rest, bufs := put W (bufs s) p c \<rparr>)"
  by (cases p) (simp add: flood_step_def put_def)

lemma visit_row_fold: "visit_row W sx yp zp s = fold (visit W) (row_nbrs W sx yp zp) s"
  by (simp add: visit_row_def row_nbrs_def Let_def)

lemma visit_dy_fold: "visit_dy W H sx sy zp s = fold (visit W) (plane_nbrs W H sx sy zp) s"
  by (simp add: visit_dy_def plane_nbrs_def visit_row_fold Let_def)

lemma visit_dz_fold: "visit_dz W H N p s = fold (visit W) (nbrs W H N p) s"
  by (cases p) (simp add: visit_dz_def nbrs_def visit_dy_fold Let_def)

lemma set_row_nbrs:
  "0 \<le> sx \<Longrightarrow> sx < int W \<Longrightarrow>
   set (row_nbrs W sx yp zp) = {(x, y, z). y = yp \<and> z = zp \<and> 0 \<le> x \<and> x < int W \<and> \<bar>x - sx\<bar> \<le> 1}"
  by (auto simp: row_nbrs_def)

lemma set_plane_nbrs:
  "0 \<le> sx \<Longrightarrow> sx < int W \<Longrightarrow>
   set (plane_nbrs W H sx sy zp) =
     {(x, y, z). z = zp \<and> 0 \<le> x \<and> x < int W \<and> \<bar>x - sx\<bar> \<le> 1 \<and> 0 \<le> y \<and> y < int H \<and> \<bar>y - sy\<bar> \<le> 1}"
  by (auto simp: plane_nbrs_def set_row_nbrs)

lemma set_nbrs:
  "inb W H N p \<Longrightarrow> set (nbrs W H N p) = {q. inb W H N q \<and> adj p q}"
  by (cases p) (auto simp: nbrs_def set_plane_nbrs inb_def adj_def)

subsection \<open>What goes down in every turn\<close>

text \<open>
  A store of a value other than 2 never raises the number of bytes equal to 2, and lowers
  it by one where the byte was 2.
\<close>

lemma count_list_update:
  "i < length xs \<Longrightarrow>
   count_list (xs[i := v]) a + (if xs ! i = a then 1 else 0)
     = count_list xs a + (if v = a then 1 else 0)"
proof (induction xs arbitrary: i)
  case Nil
  then show ?case by simp
next
  case (Cons x xs)
  show ?case
  proof (cases i)
    case 0
    then show ?thesis by simp
  next
    case (Suc k)
    with Cons.prems have "k < length xs" by simp
    from Cons.IH [OF this] show ?thesis using Suc by (auto split: if_splits)
  qed
qed

lemma of_nat_byte_eq_2: "(of_nat v :: 8 word) = 2 \<longleftrightarrow> v mod 256 = 2"
proof
  assume "(of_nat v :: 8 word) = 2"
  then have "unat (of_nat v :: 8 word) = unat (2 :: 8 word)" by simp
  then show "v mod 256 = 2" by (simp add: unat_of_nat_byte)
next
  assume "v mod 256 = 2"
  then have "unat (of_nat v :: 8 word) = unat (2 :: 8 word)" by (simp add: unat_of_nat_byte)
  then show "(of_nat v :: 8 word) = 2" by (simp only: word_unat_eq_iff)
qed

lemma unat_byte_eq_2: "unat (b :: 8 word) = 2 \<longleftrightarrow> b = 2"
  using word_unat_eq_iff [of b 2] by simp

lemma count_wr_le: "v mod 256 \<noteq> 2 \<Longrightarrow> count_list (wr buf i v) 2 \<le> count_list buf 2"
  using count_list_update [of "nat i" buf "of_nat v" 2]
  by (auto simp: wr_def of_nat_byte_eq_2 split: if_splits)

lemma count_wr_less:
  "v mod 256 \<noteq> 2 \<Longrightarrow> rd buf i = Some foreground \<Longrightarrow>
   Suc (count_list (wr buf i v) 2) = count_list buf 2"
  using count_list_update [of "nat i" buf "of_nat v" 2]
  by (auto simp: wr_def rd_def foreground_def of_nat_byte_eq_2 unat_byte_eq_2 split: if_splits)

lemma fgc_update_le:
  "count_list pl 2 \<le> count_list (g ! k) 2 \<Longrightarrow> fgc (g[k := pl]) \<le> fgc g"
proof (cases "k < length g")
  case True
  assume le: "count_list pl 2 \<le> count_list (g ! k) 2"
  have "fgc (g[k := pl]) = sum_list ((map (\<lambda>pl. count_list pl 2) g)[k := count_list pl 2])"
    by (simp add: fgc_def map_update)
  also have "\<dots> = fgc g + count_list pl 2 - count_list (g ! k) 2"
    using True by (simp add: sum_list_update fgc_def)
  finally show ?thesis using le by simp
next
  case False
  then show ?thesis by (simp add: list_update_beyond)
qed

lemma fgc_update_less:
  assumes "k < length g" "Suc (count_list pl 2) = count_list (g ! k) 2"
  shows "Suc (fgc (g[k := pl])) = fgc g"
proof -
  have "fgc (g[k := pl]) = sum_list ((map (\<lambda>pl. count_list pl 2) g)[k := count_list pl 2])"
    by (simp add: fgc_def map_update)
  also have "\<dots> = fgc g + count_list pl 2 - count_list (g ! k) 2"
    using assms by (simp add: sum_list_update fgc_def)
  finally have eq: "fgc (g[k := pl]) = fgc g + count_list pl 2 - count_list (g ! k) 2" .
  have "count_list (g ! k) 2 \<le> fgc g"
    using assms(1) by (simp add: fgc_def member_le_sum_list)
  with eq assms(2) show ?thesis by simp
qed

lemma fgc_put_le: "v mod 256 \<noteq> 2 \<Longrightarrow> fgc (put W g p v) \<le> fgc g"
  by (cases p) (simp add: put_def fgc_update_le count_wr_le)

lemma fgc_put_less:
  assumes "v mod 256 \<noteq> 2" "vox W g p = Some foreground" "inb W H (length g) p"
  shows "Suc (fgc (put W g p v)) = fgc g"
proof -
  obtain x y z where p: "p = (x, y, z)" by (cases p)
  have "nat z < length g" using assms(3) by (auto simp: p inb_def)
  then show ?thesis
    using assms(1,2) by (simp add: p put_def vox_def fgc_update_less count_wr_less)
qed

subsection \<open>The worklist loop ends\<close>

text \<open>
  A rule for the loop: what holds at the start and is kept by every turn, while \<open>work\<close>
  goes down, holds at the end, and the loop returns.
\<close>

lemma flood_while:
  assumes "I s"
    and step: "\<And>s. I s \<Longrightarrow> seeds s \<noteq> [] \<Longrightarrow>
                 I (flood_step W H N c s) \<and> work (flood_step W H N c s) < work s"
  shows "\<exists>r. flood W H N c s = Some r \<and> I r \<and> seeds r = []"
  using assms(1)
proof (induction "work s" arbitrary: s rule: less_induct)
  case less
  show ?case
  proof (cases "seeds s = []")
    case True
    with less.prems show ?thesis by (subst flood.simps) simp
  next
    case False
    from step [OF less.prems False]
    have I': "I (flood_step W H N c s)" and lt: "work (flood_step W H N c s) < work s"
      by simp_all
    from less.hyps [OF lt I']
    obtain r where "flood W H N c (flood_step W H N c s) = Some r" "I r" "seeds r = []"
      by blast
    with False show ?thesis by (subst flood.simps) simp
  qed
qed

lemma seedVal_not_fg: "seedVal mod 256 \<noteq> 2" "seedVal mod 256 \<noteq> foreground"
  by (simp_all add: seedVal_def foreground_def)

lemma visit_tidy:
  assumes "tidy W H N s" "inb W H N p"
  shows "tidy W H N (visit W p s)"
proof (cases "vox W (bufs s) p = Some foreground")
  case False
  then show ?thesis using assms by (simp add: visit_alt)
next
  case True
  from assms(1) have len: "length (bufs s) = N" by (simp add: tidy_def)
  have fresh: "p \<notin> set (pushed s)" using assms(1) True by (auto simp: tidy_def)
  have new: "vox W (put W (bufs s) p seedVal) p \<noteq> Some foreground"
    using assms(2) True len by (simp add: vox_put [of W H] seedVal_def foreground_def)
  have old: "vox W (put W (bufs s) p seedVal) q \<noteq> Some foreground"
    if "inb W H N q" "vox W (bufs s) q \<noteq> Some foreground" for q
  proof (cases "q = p")
    case True
    with new show ?thesis by simp
  next
    case False
    with that assms(2) len show ?thesis by (simp add: vox_put [of W H])
  qed
  show ?thesis using assms True fresh new old
    by (auto simp: visit_alt tidy_def)
qed

lemma visit_work: 
  assumes "length (bufs s) = N" "inb W H N p"
  shows "work (visit W p s) \<le> work s"
proof (cases "vox W (bufs s) p = Some foreground")
  case False
  then show ?thesis by (simp add: visit_alt)
next
  case True
  have "Suc (fgc (put W (bufs s) p seedVal)) = fgc (bufs s)"
    using fgc_put_less [of seedVal W "bufs s" p H] True assms by (simp add: seedVal_def)
  then show ?thesis using True by (simp add: visit_alt work_def)
qed

lemma fold_visit_tidy:
  "tidy W H N s \<Longrightarrow> \<forall>p \<in> set ps. inb W H N p \<Longrightarrow>
   tidy W H N (fold (visit W) ps s) \<and> work (fold (visit W) ps s) \<le> work s"
proof (induction ps arbitrary: s)
  case Nil
  then show ?case by simp
next
  case (Cons p ps)
  have t: "tidy W H N (visit W p s)" using Cons.prems by (simp add: visit_tidy)
  have w: "work (visit W p s) \<le> work s"
    using Cons.prems visit_work [of s N W H p] by (simp add: tidy_def)
  from Cons.IH [OF t] Cons.prems(2) w show ?case by fastforce
qed

lemma pop_tidy:
  assumes "tidy W H N s" "seeds s = p # rest" "c mod 256 \<noteq> 2"
  shows "tidy W H N (s\<lparr> seeds := rest, bufs := put W (bufs s) p c \<rparr>)"
proof -
  from assms(1) have len: "length (bufs s) = N" by (simp add: tidy_def)
  have inb: "inb W H N p" using assms(1,2) by (auto simp: tidy_def)
  have "vox W (put W (bufs s) p c) q \<noteq> Some foreground"
    if "inb W H N q" "vox W (bufs s) q \<noteq> Some foreground" for q
  proof (cases "q = p")
    case True
    with inb len assms(3) show ?thesis by (simp add: vox_put [of W H] foreground_def)
  next
    case False
    with that inb len show ?thesis by (simp add: vox_put [of W H])
  qed
  then show ?thesis using assms(1,2) by (auto simp: tidy_def)
qed

lemma flood_step_tidy:
  assumes "tidy W H N s" "seeds s \<noteq> []" "c mod 256 \<noteq> 2"
  shows "tidy W H N (flood_step W H N c s) \<and> work (flood_step W H N c s) < work s"
proof -
  from assms(2) obtain p rest where sd: "seeds s = p # rest" by (cases "seeds s") auto
  let ?s1 = "s\<lparr> seeds := rest, bufs := put W (bufs s) p c \<rparr>"
  have inb: "inb W H N p" using assms(1) sd by (auto simp: tidy_def)
  have t1: "tidy W H N ?s1" by (rule pop_tidy [OF assms(1) sd assms(3)])
  have w1: "work ?s1 < work s"
    using fgc_put_le [OF assms(3), of W "bufs s" p] sd by (simp add: work_def)
  have "\<forall>q \<in> set (nbrs W H N p). inb W H N q" using inb by (simp add: set_nbrs)
  from fold_visit_tidy [OF t1 this] w1 show ?thesis
    by (simp add: flood_step_alt [OF sd] visit_dz_fold)
qed

lemma flood_tidy:
  assumes "tidy W H N s" "c mod 256 \<noteq> 2"
  shows "\<exists>r. flood W H N c s = Some r \<and> tidy W H N r \<and> seeds r = []"
  by (rule flood_while [where I = "tidy W H N"])
     (use assms flood_step_tidy in blast)+

subsection \<open>The scan returns\<close>

text \<open>
  With the counter between 3 and 254 every fill returns, so the scan, the labeling pass and
  the whole session return.
\<close>

lemma scan_Cons:
  "scan W H N (p # ps) g c =
     (if vox W g (ic p) \<noteq> Some foreground then scan W H N ps g c
      else case flood W H N c (seeded W g (ic p)) of
             None \<Rightarrow> None
           | Some s \<Rightarrow> if c + 1 \<ge> seedVal then Some (Capacity (bufs s) (c + 1))
                       else scan W H N ps (bufs s) (c + 1))"
  by (cases p) (simp add: vox_def put_def seeded_def ic_def Let_def split: option.splits)

lemma seeded_tidy:
  assumes "inb W H (length g) p"
  shows "tidy W H (length g) (seeded W g p)"
  using assms vox_put [of W H g p p seedVal]
  by (auto simp: tidy_def seeded_def seedVal_def foreground_def)

lemma in_grid_raster: "in_grid W H N (raster W H N)"
  by (auto simp: in_grid_def raster_def inb_def ic_def)

lemma in_grid_Cons: "in_grid W H N (p # ps) \<longleftrightarrow> inb W H N (ic p) \<and> in_grid W H N ps"
  by (simp add: in_grid_def)

lemma comp_not_fg: "3 \<le> c \<Longrightarrow> c < 255 \<Longrightarrow> c mod 256 \<noteq> (2::nat)"
  by simp

lemma scan_total:
  "length g = N \<Longrightarrow> in_grid W H N ps \<Longrightarrow> 3 \<le> c \<Longrightarrow> c < 255 \<Longrightarrow>
   \<exists>r. scan W H N ps g c = Some r"
proof (induction ps arbitrary: g c)
  case Nil
  then show ?case by simp
next
  case (Cons p ps)
  from Cons.prems have inb: "inb W H (length g) (ic p)" and rest: "in_grid W H N ps"
    by (simp_all add: in_grid_Cons)
  show ?case
  proof (cases "vox W g (ic p) \<noteq> Some foreground")
    case True
    with Cons.IH [OF Cons.prems(1) rest Cons.prems(3,4)] show ?thesis
      by (simp add: scan_Cons)
  next
    case False
    from flood_tidy [OF seeded_tidy [OF inb] comp_not_fg [OF Cons.prems(3,4)]]
    obtain s where fl: "flood W H (length g) c (seeded W g (ic p)) = Some s"
      and t: "tidy W H (length g) s" by blast
    from t Cons.prems(1) have len: "length (bufs s) = N" by (simp add: tidy_def)
    show ?thesis
    proof (cases "c + 1 \<ge> seedVal")
      case True
      with False fl Cons.prems(1) show ?thesis by (simp add: scan_Cons)
    next
      case ge: False
      then have "3 \<le> c + 1" "c + 1 < 255" using Cons.prems(3) by (simp_all add: seedVal_def)
      from Cons.IH [OF len rest this] False fl ge Cons.prems(1) show ?thesis
        by (simp add: scan_Cons)
    qed
  qed
qed

lemma scan_no_foreground:
  "\<forall>p \<in> set ps. vox W g (ic p) \<noteq> Some foreground \<Longrightarrow>
   scan W H N ps g c = Some (Finished g c)"
  by (induction ps) (simp_all add: scan_Cons)

lemma label_pass_total: "\<exists>r. label_pass W H g = Some r"
  unfolding label_pass_def by (rule scan_total [OF refl in_grid_raster]) simp_all

lemma label_and_upload_total: "\<exists>r. label_and_upload e W H bpp g this = Some r"
  using label_pass_total [of W H g]
  by (auto simp: label_and_upload_def split: scan_result.splits)

lemma handle_total: "\<exists>r. handleMultiImageTiff e this = Some r"
  using label_and_upload_total
  by (auto simp: handleMultiImageTiff_def Let_def
           split: decode_outcome.splits list.splits sum.splits prod.splits)

lemma session_total: "\<exists>r. session e imgFiles ccb pcb this0 = Some r"
  using handle_total
  by (auto simp: session_def Let_def split: prod.splits bool.splits read_outcome.splits)

subsection \<open>The remap of a plane\<close>


lemma length_remap_at [simp]: "length (remap_at arr j) = length arr"
  by (simp add: remap_at_def split: option.splits)

lemma remap_plane_Suc: "remap_plane (Suc n) arr = remap_at (remap_plane n arr) n"
  by (simp add: remap_plane_def)

lemma length_remap_plane [simp]: "length (remap_plane wh arr) = length arr"
  by (induction wh) (simp_all add: remap_plane_Suc, simp add: remap_plane_def)




subsection \<open>The log and the flags of the loader\<close>

lemma completions_emit [simp]:
  "completions (emit ev this) = completions this @ (case ev of CompleteCb r \<Rightarrow> [r] | _ \<Rightarrow> [])"
  by (simp add: completions_def emit_def)

lemma progress_calls_emit [simp]:
  "progress_calls (emit ev this) = progress_calls this @ (case ev of ProgressCb a b \<Rightarrow> [(a, b)] | _ \<Rightarrow> [])"
  by (simp add: progress_calls_def emit_def)

lemma calls_update [simp]:
  "progress_calls (this\<lparr> errors := x \<rparr>) = progress_calls this"
  "progress_calls (this\<lparr> done' := b \<rparr>) = progress_calls this"
  "progress_calls (this\<lparr> numLabelsFound := k \<rparr>) = progress_calls this"
  "progress_calls (this\<lparr> cancelled := b \<rparr>) = progress_calls this"
  "completions (this\<lparr> errors := x \<rparr>) = completions this"
  "completions (this\<lparr> done' := b \<rparr>) = completions this"
  "completions (this\<lparr> numLabelsFound := k \<rparr>) = completions this"
  "completions (this\<lparr> cancelled := b \<rparr>) = completions this"
  by (simp_all add: progress_calls_def completions_def)

lemma emit_update [simp]:
  "emit ev this\<lparr> done' := b \<rparr> = emit ev (this\<lparr> done' := b \<rparr>)"
  by (simp add: emit_def)

lemma emit_fields [simp]:
  "cancelled (emit ev this) = cancelled this"
  "done' (emit ev this) = done' this"
  "errors (emit ev this) = errors this"
  "warnings (emit ev this) = warnings this"
  "numLabelsFound (emit ev this) = numLabelsFound this"
  "loadProgressCb (emit ev this) = loadProgressCb this"
  "loadCompleteCb (emit ev this) = loadCompleteCb this"
  "log (emit ev this) = log this @ [ev]"
  by (simp_all add: emit_def)

lemma suspend_fields [simp]:
  "cancelled (suspend e k this) = (cancelled this \<or> cancel_at e k)"
  "done' (suspend e k this) = done' this"
  "numLabelsFound (suspend e k this) = numLabelsFound this"
  "loadProgressCb (suspend e k this) = loadProgressCb this"
  "loadCompleteCb (suspend e k this) = loadCompleteCb this"
  "log (suspend e k this) = log this"
  "completions (suspend e k this) = completions this"
  "progress_calls (suspend e k this) = progress_calls this"
  by (simp_all add: suspend_def)

lemma SafeInvoke_progress_fields [simp]:
  "cancelled (SafeInvoke_progress a b this) = cancelled this"
  "done' (SafeInvoke_progress a b this) = done' this"
  "numLabelsFound (SafeInvoke_progress a b this) = numLabelsFound this"
  "loadProgressCb (SafeInvoke_progress a b this) = loadProgressCb this"
  "loadCompleteCb (SafeInvoke_progress a b this) = loadCompleteCb this"
  "completions (SafeInvoke_progress a b this) = completions this"
  "progress_calls (SafeInvoke_progress a b this)
     = progress_calls this @ (if loadProgressCb this then [(a, b)] else [])"
  by (simp_all add: SafeInvoke_progress_def)

lemma SafeInvoke_complete_fields [simp]:
  "cancelled (SafeInvoke_complete this) = cancelled this"
  "done' (SafeInvoke_complete this) = done' this"
  "errors (SafeInvoke_complete this) = errors this"
  "numLabelsFound (SafeInvoke_complete this) = numLabelsFound this"
  "loadProgressCb (SafeInvoke_complete this) = loadProgressCb this"
  "loadCompleteCb (SafeInvoke_complete this) = loadCompleteCb this"
  "progress_calls (SafeInvoke_complete this) = progress_calls this"
  "completions (SafeInvoke_complete this)
     = completions this @ (if loadCompleteCb this then [report_of this] else [])"
  by (simp_all add: SafeInvoke_complete_def)

lemma onImageLoadingError_fields [simp]:
  "cancelled (onImageLoadingError arg this) = cancelled this"
  "cancelled this \<Longrightarrow> onImageLoadingError arg this = this"
  "progress_calls (onImageLoadingError arg this) = progress_calls this"
  "loadProgressCb (onImageLoadingError arg this) = loadProgressCb this"
  by (simp_all add: onImageLoadingError_def)

lemma upload_fields [simp]:
  "cancelled (upload e W H N bpp g this) = cancelled this"
  "progress_calls (upload e W H N bpp g this) = progress_calls this"
  by (simp_all add: upload_def Let_def)

lemma capacity_exit_fields [simp]:
  "cancelled (capacity_exit e this) = cancelled this"
  "progress_calls (capacity_exit e this) = progress_calls this"
  by (simp_all add: capacity_exit_def)

lemma label_and_upload_fields:
  "label_and_upload e W H bpp g this = Some r \<Longrightarrow>
   cancelled r = cancelled this \<and> progress_calls r = progress_calls this"
  by (auto simp: label_and_upload_def split: option.splits scan_result.splits)

lemma decode_frames_cancel:
  "\<not> cancelled this \<Longrightarrow> completions this = [] \<Longrightarrow>
   (case decode_frames e wh n z fs acc this of
      Inl this' \<Rightarrow> cancelled this' \<longrightarrow> completions this' = []
    | Inr (g, this') \<Rightarrow> \<not> cancelled this')"
proof (induction fs arbitrary: z acc this)
  case Nil
  then show ?case by simp
next
  case (Cons f fs)
  show ?case
  proof (cases "data f")
    case (Inl m)
    with Cons.prems show ?thesis by simp
  next
    case (Inr buffer)
    show ?thesis
    proof (cases "loadProgressCb this")
      case False
      with Inr Cons.IH [OF Cons.prems] show ?thesis by (simp add: Let_def)
    next
      case True
      let ?t = "suspend e (z + 1) (SafeInvoke_progress z n this)"
      show ?thesis
      proof (cases "cancelled ?t")
        case c: True
        with True Inr Cons.prems show ?thesis by (simp add: Let_def)
      next
        case c: False
        have "completions ?t = []" using Cons.prems by simp
        from Cons.IH [OF c this] True Inr c show ?thesis by (simp add: Let_def)
      qed
    qed
  qed
qed

lemma handle_cancel:
  assumes "completions this = []" "handleMultiImageTiff e this = Some r"
  shows "cancelled r \<longrightarrow> completions r = []"
proof (cases "cancelled this")
  case True
  with assms show ?thesis by (simp add: handleMultiImageTiff_def)
next
  case False
  show ?thesis
  proof (cases "decoding e")
    case DecodeRaises
    with False assms show ?thesis by (simp add: handleMultiImageTiff_def)
  next
    case (Ifds ifds)
    show ?thesis
    proof (cases ifds)
      case Nil
      with Ifds False assms show ?thesis by (auto simp: handleMultiImageTiff_def)
    next
      case (Cons ifd0 rest)
      show ?thesis
      proof (cases "data ifd0")
        case (Inl m)
        with Cons Ifds False assms show ?thesis by (auto simp: handleMultiImageTiff_def)
      next
        case (Inr buffer)
        show ?thesis
        proof (cases "t258 ifd0 = 8")
          case ne: False
          with Inr Cons Ifds False assms show ?thesis
            by (auto simp: handleMultiImageTiff_def Let_def)
        next
          case eq: True
          let ?d = "decode_frames e (width ifd0 * height ifd0) (length ifds) 0 ifds [] this"
          from decode_frames_cancel [OF False assms(1), of e "width ifd0 * height ifd0" "length ifds" 0 ifds "[]"]
          have d: "case ?d of Inl this' \<Rightarrow> cancelled this' \<longrightarrow> completions this' = []
                     | Inr (g, this') \<Rightarrow> \<not> cancelled this'" .
          show ?thesis
          proof (cases ?d)
            case l: (Inl this')
            with d eq Inr Cons Ifds False assms show ?thesis
              by (auto simp: handleMultiImageTiff_def Let_def)
          next
            case r: (Inr gt)
            obtain g this' where gt: "gt = (g, this')" by (cases gt)
            from r gt eq Inr Cons Ifds False assms(2)
            have "label_and_upload e (width ifd0) (height ifd0) (t258 ifd0) g this' = Some r"
              by (auto simp: handleMultiImageTiff_def Let_def)
            from label_and_upload_fields [OF this] d r gt show ?thesis by simp
          qed
        qed
      qed
    qed
  qed
qed

lemma load_valid:
  assumes "valid_items imgFiles"
  shows "\<exists>this. loadImagesIntoVolume imgFiles ccb pcb this0 = (this, True) \<and>
           cancelled this = cancelled this0 \<and> completions this = [] \<and>
           progress_calls this = (if pcb then [(0, length imgFiles)] else []) \<and>
           loadProgressCb this = pcb \<and> loadCompleteCb this = ccb \<and> \<not> done' this"
proof -
  from assms have ne: "imgFiles \<noteq> []"
    and ok: "\<not> list_ex (\<lambda>f. f \<noteq> FileSystemFileHandle \<and> f \<noteq> File) imgFiles"
    by (auto simp: valid_items_def list_ex_iff list_all_iff)
  show ?thesis using ne ok
    by (simp add: loadImagesIntoVolume_def Let_def SafeInvoke_progress_def
          completions_def progress_calls_def emit_def)
qed


subsection \<open>One fill marks one region\<close>

lemma painted_tidy: "painted W H g0 p0 c s \<Longrightarrow> tidy W H (length g0) s"
  unfolding painted_def by blast

lemma painted_start: "painted W H g0 p0 c s \<Longrightarrow> p0 \<in> set (pushed s)"
  unfolding painted_def by blast

lemma painted_sub: "painted W H g0 p0 c s \<Longrightarrow> set (pushed s) \<subseteq> region (fgset W H g0) p0"
  unfolding painted_def by blast

lemma painted_vox:
  "painted W H g0 p0 c s \<Longrightarrow> inb W H (length g0) q \<Longrightarrow>
   vox W (bufs s) q = (if q \<in> set (seeds s) then Some seedVal
                       else if q \<in> set (pushed s) then Some c else vox W g0 q)"
  unfolding painted_def by blast

lemma visit_seeds_pushed:
  "set (pushed s) \<subseteq> set (pushed (visit W r s))"
  "set (pushed (visit W r s)) - set (seeds (visit W r s)) = set (pushed s) - set (seeds s) - {r}
     \<or> set (pushed (visit W r s)) - set (seeds (visit W r s)) = set (pushed s) - set (seeds s)"
  by (auto simp: visit_alt)

lemma visit_painted:
  assumes "painted W H g0 p0 c s" "inb W H (length g0) r" "q \<in> set (pushed s)" "adj q r"
    and "c \<noteq> foreground"
  shows "painted W H g0 p0 c (visit W r s)"
proof (cases "vox W (bufs s) r = Some foreground")
  case False
  then show ?thesis using assms(1) by (simp add: visit_alt)
next
  case True
  let ?F = "fgset W H g0"
  note t = painted_tidy [OF assms(1)] and sub = painted_sub [OF assms(1)]
    and p0 = painted_start [OF assms(1)] and v = painted_vox [OF assms(1)]
  from t have len: "length (bufs s) = length g0" by (simp add: tidy_def)
  have fresh: "r \<notin> set (pushed s)" using t True by (auto simp: tidy_def)
  then have nseed: "r \<notin> set (seeds s)" using t by (auto simp: tidy_def)
  from v [OF assms(2)] True fresh nseed have "vox W g0 r = Some foreground" by simp
  with assms(2) have rF: "r \<in> ?F" by (simp add: fgset_def)
  from sub assms(3) have "q \<in> region ?F p0" by blast
  then have rR: "r \<in> region ?F p0" using rF assms(4) by (rule region.step)
  have t': "tidy W H (length g0) (visit W r s)" using t assms(2) by (rule visit_tidy)
  have v': "vox W (put W (bufs s) r seedVal) q' =
              (if q' \<in> set (r # seeds s) then Some seedVal
               else if q' \<in> set (pushed s @ [r]) then Some c else vox W g0 q')"
    if "inb W H (length g0) q'" for q'
  proof (cases "q' = r")
    case True
    with assms(2) len \<open>vox W (bufs s) r = Some foreground\<close> show ?thesis
      by (simp add: vox_put [of W H] seedVal_def)
  next
    case False
    with that assms(2) len v [OF that] show ?thesis by (simp add: vox_put [of W H])
  qed
  have "painted W H g0 p0 c
          (s\<lparr> seeds := r # seeds s, pushed := pushed s @ [r], bufs := put W (bufs s) r seedVal \<rparr>)"
    unfolding painted_def using t' True sub p0 rR v' by (simp add: visit_alt)
  with True show ?thesis by (simp add: visit_alt)
qed

lemma visit_catches:
  assumes "painted W H g0 p0 c s" "r \<in> fgset W H g0"
  shows "r \<in> set (pushed (visit W r s))"
proof (cases "vox W (bufs s) r = Some foreground")
  case True
  then show ?thesis by (simp add: visit_alt)
next
  case False
  from assms(2) have inb: "inb W H (length g0) r" and fg: "vox W g0 r = Some foreground"
    by (simp_all add: fgset_def)
  from assms(1) inb
  have "vox W (bufs s) r = (if r \<in> set (seeds s) then Some seedVal
                            else if r \<in> set (pushed s) then Some c else vox W g0 r)"
    by (rule painted_vox)
  with False fg have "r \<in> set (seeds s) \<or> r \<in> set (pushed s)" by (auto split: if_splits)
  moreover from painted_tidy [OF assms(1)] have "set (seeds s) \<subseteq> set (pushed s)"
    by (simp add: tidy_def)
  ultimately show ?thesis using False by (auto simp: visit_alt)
qed

lemma visit_done: "set (pushed (visit W r s)) - set (seeds (visit W r s)) = set (pushed s) - set (seeds s)"
  if "set (seeds s) \<subseteq> set (pushed s)" "vox W (bufs s) r = Some foreground \<longrightarrow> r \<notin> set (pushed s)"
  using that by (auto simp: visit_alt)

lemma fold_visit_painted:
  assumes "painted W H g0 p0 c s" "c \<noteq> foreground" "q \<in> set (pushed s)"
    and "\<forall>r \<in> set rs. inb W H (length g0) r \<and> adj q r"
  shows "painted W H g0 p0 c (fold (visit W) rs s) \<and>
         set (pushed s) \<subseteq> set (pushed (fold (visit W) rs s)) \<and>
         set (pushed (fold (visit W) rs s)) - set (seeds (fold (visit W) rs s))
           = set (pushed s) - set (seeds s) \<and>
         (\<forall>r \<in> set rs \<inter> fgset W H g0. r \<in> set (pushed (fold (visit W) rs s)))"
  using assms(1,3,4)
proof (induction rs arbitrary: s)
  case Nil
  then show ?case by simp
next
  case (Cons r rs)
  let ?s1 = "visit W r s"
  from Cons.prems have inb: "inb W H (length g0) r" and adj: "adj q r" by simp_all
  have p1: "painted W H g0 p0 c ?s1"
    using Cons.prems(1) inb Cons.prems(2) adj assms(2) by (rule visit_painted)
  have mono: "set (pushed s) \<subseteq> set (pushed ?s1)" by (rule visit_seeds_pushed)
  then have q1: "q \<in> set (pushed ?s1)" using Cons.prems(2) by blast
  have rest: "\<forall>r \<in> set rs. inb W H (length g0) r \<and> adj q r" using Cons.prems(3) by simp
  from Cons.prems(1) have t: "tidy W H (length g0) s" by (rule painted_tidy)
  have d1: "set (pushed ?s1) - set (seeds ?s1) = set (pushed s) - set (seeds s)"
    using t by (intro visit_done) (auto simp: tidy_def)
  have c1: "r \<in> fgset W H g0 \<Longrightarrow> r \<in> set (pushed ?s1)"
    using Cons.prems(1) by (rule visit_catches)
  from Cons.IH [OF p1 q1 rest] mono d1 c1 show ?case by auto
qed

lemma flood_step_fill_inv:
  assumes "fill_inv W H g0 p0 c s" "seeds s \<noteq> []" "3 \<le> c" "c < 255"
  shows "fill_inv W H g0 p0 c (flood_step W H (length g0) c s)"
proof -
  let ?N = "length g0" and ?F = "fgset W H g0"
  from assms(2) obtain q rest where sd: "seeds s = q # rest" by (cases "seeds s") auto
  let ?s1 = "s\<lparr> seeds := rest, bufs := put W (bufs s) q c \<rparr>"
  from assms(1) have pt: "painted W H g0 p0 c s"
    and st: "settled W H g0 s (set (pushed s) - set (seeds s))"
    by (simp_all add: fill_inv_def)
  note t = painted_tidy [OF pt] and v = painted_vox [OF pt]
  from t have len: "length (bufs s) = ?N" by (simp add: tidy_def)
  from t sd have qin: "q \<in> set (pushed s)" and qinb: "inb W H ?N q"
    and qrest: "q \<notin> set rest" by (auto simp: tidy_def)
  have cm: "c mod 256 \<noteq> 2" "c mod 256 = c" "c \<noteq> foreground"
    using assms(3,4) by (simp_all add: foreground_def)
  have t1: "tidy W H ?N ?s1" by (rule pop_tidy [OF t sd cm(1)])
  have v1: "vox W (bufs ?s1) q' =
              (if q' \<in> set (seeds ?s1) then Some seedVal
               else if q' \<in> set (pushed ?s1) then Some c else vox W g0 q')"
    if "inb W H ?N q'" for q'
  proof (cases "q' = q")
    case True
    from v [OF qinb] sd have "vox W (bufs s) q = Some seedVal" by simp
    with True qinb len qrest qin cm(2) show ?thesis by (simp add: vox_put [of W H])
  next
    case False
    with that qinb len v [OF that] sd show ?thesis by (simp add: vox_put [of W H])
  qed
  have p1: "painted W H g0 p0 c ?s1"
    unfolding painted_def
    using painted_start [OF pt] painted_sub [OF pt] t1 v1 by simp
  have q1: "q \<in> set (pushed ?s1)" using qin by simp
  have nb: "\<forall>r \<in> set (nbrs W H ?N q). inb W H ?N r \<and> adj q r"
    using qinb by (simp add: set_nbrs)
  let ?s2 = "fold (visit W) (nbrs W H ?N q) ?s1"
  from fold_visit_painted [OF p1 cm(3) q1 nb]
  have p2: "painted W H g0 p0 c ?s2"
    and mono: "set (pushed ?s1) \<subseteq> set (pushed ?s2)"
    and dn: "set (pushed ?s2) - set (seeds ?s2) = set (pushed ?s1) - set (seeds ?s1)"
    and caught: "\<forall>r \<in> set (nbrs W H ?N q) \<inter> ?F. r \<in> set (pushed ?s2)"
    by simp_all
  have "settled W H g0 ?s2 (set (pushed ?s2) - set (seeds ?s2))"
    unfolding settled_def
  proof (intro ballI impI)
    fix q' r assume q': "q' \<in> set (pushed ?s2) - set (seeds ?s2)" and r: "r \<in> ?F" and a: "adj q' r"
    show "r \<in> set (pushed ?s2)"
    proof (cases "q' = q")
      case True
      from r have "inb W H ?N r" by (simp add: fgset_def)
      with a True qinb have "r \<in> set (nbrs W H ?N q)" by (simp add: set_nbrs)
      with caught r show ?thesis by blast
    next
      case False
      with q' dn sd have "q' \<in> set (pushed s) - set (seeds s)" by auto
      with st r a have "r \<in> set (pushed s)" by (auto simp: settled_def)
      with mono show ?thesis by auto
    qed
  qed
  with p2 show ?thesis
    by (simp add: fill_inv_def flood_step_alt [OF sd] visit_dz_fold)
qed

lemma seeded_fill_inv:
  assumes "p0 \<in> fgset W H g0"
  shows "fill_inv W H g0 p0 c (seeded W g0 p0)"
proof -
  from assms have inb: "inb W H (length g0) p0" and fg: "vox W g0 p0 = Some foreground"
    by (simp_all add: fgset_def)
  have "vox W (put W g0 p0 seedVal) q = (if q = p0 then Some seedVal else vox W g0 q)"
    if "inb W H (length g0) q" for q
    using that inb fg by (simp add: vox_put [of W H] seedVal_def)
  then show ?thesis
    using seeded_tidy [OF inb] assms
    by (auto simp: fill_inv_def painted_def settled_def seeded_def intro: region.start)
qed

lemma closed_region:
  assumes "p0 \<in> S" "\<forall>q \<in> S. \<forall>r \<in> F. adj q r \<longrightarrow> r \<in> S" "x \<in> region F p0"
  shows "x \<in> S"
  using assms(3,1,2) by (induction rule: region.induct) auto

lemma flood_fills:
  assumes "p0 \<in> fgset W H g0" "3 \<le> c" "c < 255"
  shows "\<exists>s. flood W H (length g0) c (seeded W g0 p0) = Some s \<and> seeds s = [] \<and>
           length (bufs s) = length g0 \<and> distinct (pushed s) \<and>
           set (pushed s) = region (fgset W H g0) p0 \<and>
           (\<forall>q. inb W H (length g0) q \<longrightarrow>
              vox W (bufs s) q = (if q \<in> region (fgset W H g0) p0 then Some c else vox W g0 q))"
proof -
  have cm: "c mod 256 \<noteq> 2" using assms(2,3) by simp
  have "\<exists>s. flood W H (length g0) c (seeded W g0 p0) = Some s \<and>
             fill_inv W H g0 p0 c s \<and> seeds s = []"
  proof (rule flood_while [where I = "fill_inv W H g0 p0 c"])
    show "fill_inv W H g0 p0 c (seeded W g0 p0)" by (rule seeded_fill_inv [OF assms(1)])
  next
    fix s assume i: "fill_inv W H g0 p0 c s" and ne: "seeds s \<noteq> []"
    from i have "tidy W H (length g0) s" by (auto simp: fill_inv_def intro: painted_tidy)
    from flood_step_tidy [OF this ne cm] flood_step_fill_inv [OF i ne assms(2,3)]
    show "fill_inv W H g0 p0 c (flood_step W H (length g0) c s) \<and>
          work (flood_step W H (length g0) c s) < work s" by simp
  qed
  then obtain s where fl: "flood W H (length g0) c (seeded W g0 p0) = Some s"
    and i: "fill_inv W H g0 p0 c s" and e: "seeds s = []" by blast
  from i have pt: "painted W H g0 p0 c s" by (simp add: fill_inv_def)
  note sub = painted_sub [OF pt] and p0 = painted_start [OF pt] and t = painted_tidy [OF pt]
  from i e have cl: "\<forall>q \<in> set (pushed s). \<forall>r \<in> fgset W H g0. adj q r \<longrightarrow> r \<in> set (pushed s)"
    by (simp add: fill_inv_def settled_def)
  have v: "\<forall>q. inb W H (length g0) q \<longrightarrow>
              vox W (bufs s) q = (if q \<in> set (pushed s) then Some c else vox W g0 q)"
    using painted_vox [OF pt] e by simp
  have "region (fgset W H g0) p0 \<subseteq> set (pushed s)"
    using closed_region [OF p0 cl] by blast
  with sub have eq: "set (pushed s) = region (fgset W H g0) p0" by blast
  with fl e t v show ?thesis by (auto simp: tidy_def)
qed

subsection \<open>Regions\<close>

text \<open>
  Being in the region of a voxel is symmetric and transitive, and taking whole other
  regions out of the set changes nothing for the region of a voxel left in.
\<close>

lemma adj_sym: "adj p q \<Longrightarrow> adj q p"
  by (cases p, cases q) (auto simp: adj_def)

lemma adj_refl: "adj p p"
  by (cases p) (simp add: adj_def)

lemma region_sub: "q \<in> region F p \<Longrightarrow> q \<in> F"
  by (induction rule: region.induct) auto

lemma region_origin: "q \<in> region F p \<Longrightarrow> p \<in> F"
  by (induction rule: region.induct) auto

lemma region_trans: "r \<in> region F q \<Longrightarrow> q \<in> region F p \<Longrightarrow> r \<in> region F p"
  by (induction rule: region.induct) (auto intro: region.step)

lemma region_sym: "q \<in> region F p \<Longrightarrow> p \<in> region F q"
proof (induction rule: region.induct)
  case start
  then show ?case by (rule region.start)
next
  case (step q r)
  have "r \<in> region F r" using step.hyps(2) by (rule region.start)
  then have "q \<in> region F r"
    using region_sub [OF step.hyps(1)] adj_sym [OF step.hyps(3)] by (rule region.step)
  with step.IH show ?case by (rule region_trans)
qed

lemma region_eq: "q \<in> region F p \<Longrightarrow> region F q = region F p"
  using region_trans region_sym by blast

lemma region_mono: "q \<in> region F' p \<Longrightarrow> F' \<subseteq> F \<Longrightarrow> q \<in> region F p"
  by (induction rule: region.induct) (auto intro: region.intros)

lemma region_minus:
  assumes "U \<inter> region F p = {}"
  shows "region (F - U) p = region F p"
proof
  show "region (F - U) p \<subseteq> region F p" using region_mono [of _ "F - U" p F] by blast
  show "region F p \<subseteq> region (F - U) p"
  proof
    fix x assume "x \<in> region F p"
    then show "x \<in> region (F - U) p"
    proof (induction rule: region.induct)
      case start
      then have "p \<in> region F p" by (rule region.start)
      with assms start show ?case by (auto intro: region.start)
    next
      case (step q r)
      have "r \<in> region F p" using step.hyps by (rule region.step)
      with assms step.hyps(2) have "r \<in> F - U" by auto
      with step.IH show ?case using step.hyps(3) by (rule region.step)
    qed
  qed
qed

subsection \<open>The scan marks region after region\<close>

lemma labelled_fgset:
  assumes "labelled W H g0 ss g"
  shows "fgset W H g = fgset W H g0 - (\<Union>i < length ss. region (fgset W H g0) (ss ! i))"
proof -
  let ?F = "fgset W H g0"
  from assms have len: "length g = length g0"
    and val: "\<And>i q. i < length ss \<Longrightarrow> q \<in> region ?F (ss ! i) \<Longrightarrow> vox W g q = Some (3 + i)"
    and out: "\<And>q. inb W H (length g0) q \<Longrightarrow> \<forall>i < length ss. q \<notin> region ?F (ss ! i) \<Longrightarrow>
                vox W g q = vox W g0 q"
    unfolding labelled_def by blast+
  show ?thesis
  proof (intro set_eqI iffI)
    fix q assume q: "q \<in> fgset W H g"
    then have inb: "inb W H (length g0) q" and fg: "vox W g q = Some foreground"
      using len by (simp_all add: fgset_def)
    have no: "\<forall>i < length ss. q \<notin> region ?F (ss ! i)"
    proof (intro allI impI notI)
      fix i assume "i < length ss" "q \<in> region ?F (ss ! i)"
      from val [OF this] fg show False by (simp add: foreground_def)
    qed
    from out [OF inb no] fg inb have "q \<in> ?F" by (simp add: fgset_def)
    with no show "q \<in> ?F - (\<Union>i < length ss. region ?F (ss ! i))" by blast
  next
    fix q assume q: "q \<in> ?F - (\<Union>i < length ss. region ?F (ss ! i))"
    then have inb: "inb W H (length g0) q" and fg: "vox W g0 q = Some foreground"
      and no: "\<forall>i < length ss. q \<notin> region ?F (ss ! i)"
      by (auto simp: fgset_def)
    from out [OF inb no] fg inb len show "q \<in> fgset W H g" by (simp add: fgset_def)
  qed
qed

lemma labelled_extend:
  assumes lab: "labelled W H g0 ss g" and q: "q \<in> fgset W H g"
    and len': "length g' = length g"
    and fill: "\<forall>x. inb W H (length g) x \<longrightarrow>
                 vox W g' x = (if x \<in> region (fgset W H g) q then Some (3 + length ss) else vox W g x)"
  shows "labelled W H g0 (ss @ [q]) g' \<and> region (fgset W H g) q = region (fgset W H g0) q"
proof -
  let ?F = "fgset W H g0"
  let ?U = "\<Union>i < length ss. region ?F (ss ! i)"
  from lab have len: "length g = length g0"
    and sF: "\<And>i. i < length ss \<Longrightarrow> ss ! i \<in> ?F"
    and dj: "\<And>i j. i < length ss \<Longrightarrow> j < length ss \<Longrightarrow> i \<noteq> j \<Longrightarrow>
               region ?F (ss ! i) \<inter> region ?F (ss ! j) = {}"
    and val: "\<And>i x. i < length ss \<Longrightarrow> x \<in> region ?F (ss ! i) \<Longrightarrow> vox W g x = Some (3 + i)"
    and out: "\<And>x. inb W H (length g0) x \<Longrightarrow> \<forall>i < length ss. x \<notin> region ?F (ss ! i) \<Longrightarrow>
                vox W g x = vox W g0 x"
    unfolding labelled_def by blast+
  have fg: "fgset W H g = ?F - ?U" by (rule labelled_fgset [OF lab])
  with q have qF: "q \<in> ?F" and qU: "q \<notin> ?U" by auto
  have disj: "region ?F (ss ! i) \<inter> region ?F q = {}" if "i < length ss" for i
  proof (rule ccontr)
    assume "region ?F (ss ! i) \<inter> region ?F q \<noteq> {}"
    then obtain x where x: "x \<in> region ?F (ss ! i)" "x \<in> region ?F q" by blast
    from region_sym [OF x(2)] x(1) have "q \<in> region ?F (ss ! i)" by (rule region_trans)
    with that qU show False by blast
  qed
  then have "?U \<inter> region ?F q = {}" by blast
  from region_minus [OF this] fg have req: "region (fgset W H g) q = region ?F q" by simp
  have inbF: "inb W H (length g0) x" if "x \<in> ?F" for x using that by (simp add: fgset_def)
  have fill': "vox W g' x = (if x \<in> region ?F q then Some (3 + length ss) else vox W g x)"
    if "inb W H (length g) x" for x
    using fill [rule_format, OF that] req by (simp only:)
  have nth: "(ss @ [q]) ! i = (if i < length ss then ss ! i else q)" if "i < Suc (length ss)" for i
    using that by (auto simp: nth_append less_Suc_eq)
  have 1: "\<forall>i < length (ss @ [q]). (ss @ [q]) ! i \<in> ?F"
    using sF qF by (auto simp: nth_append less_Suc_eq)
  have 2: "\<forall>i < length (ss @ [q]). \<forall>j < length (ss @ [q]). i \<noteq> j \<longrightarrow>
             region ?F ((ss @ [q]) ! i) \<inter> region ?F ((ss @ [q]) ! j) = {}"
  proof (intro allI impI)
    fix i j assume i: "i < length (ss @ [q])" and j: "j < length (ss @ [q])" and ne: "i \<noteq> j"
    show "region ?F ((ss @ [q]) ! i) \<inter> region ?F ((ss @ [q]) ! j) = {}"
    proof (cases "i < length ss")
      case True
      show ?thesis
      proof (cases "j < length ss")
        case jt: True
        with True ne dj show ?thesis by (simp add: nth_append)
      next
        case False
        with j have "j = length ss" by simp
        with True disj show ?thesis by (simp add: nth_append)
      qed
    next
      case False
      with i have ii: "i = length ss" by simp
      with j ne have "j < length ss" by simp
      with ii disj [of j] show ?thesis by (auto simp: nth_append)
    qed
  qed
  have 3: "\<forall>i < length (ss @ [q]). \<forall>x \<in> region ?F ((ss @ [q]) ! i). vox W g' x = Some (3 + i)"
  proof (intro allI impI ballI)
    fix i x assume i: "i < length (ss @ [q])" and x: "x \<in> region ?F ((ss @ [q]) ! i)"
    from region_sub [OF x] have xin: "inb W H (length g) x" using inbF len by simp
    show "vox W g' x = Some (3 + i)"
    proof (cases "i < length ss")
      case True
      with x have xi: "x \<in> region ?F (ss ! i)" by (simp add: nth_append)
      with disj [OF True] have "x \<notin> region ?F q" by blast
      with fill' [OF xin] val [OF True xi] show ?thesis by simp
    next
      case False
      with i have ii: "i = length ss" by simp
      with x have "x \<in> region ?F q" by simp
      with fill' [OF xin] ii show ?thesis by simp
    qed
  qed
  have 4: "\<forall>x. inb W H (length g0) x \<and> (\<forall>i < length (ss @ [q]). x \<notin> region ?F ((ss @ [q]) ! i)) \<longrightarrow>
             vox W g' x = vox W g0 x"
  proof (intro allI impI)
    fix x assume a: "inb W H (length g0) x \<and> (\<forall>i < length (ss @ [q]). x \<notin> region ?F ((ss @ [q]) ! i))"
    then have xin: "inb W H (length g0) x" by simp
    from a have all: "\<forall>i < length (ss @ [q]). x \<notin> region ?F ((ss @ [q]) ! i)" by blast
    have "length ss < length (ss @ [q])" by simp
    with all have "x \<notin> region ?F ((ss @ [q]) ! length ss)" by blast
    then have nq: "x \<notin> region ?F q" by simp
    have old: "\<forall>i < length ss. x \<notin> region ?F (ss ! i)"
    proof (intro allI impI)
      fix i assume i: "i < length ss"
      then have "i < length (ss @ [q])" by simp
      with all have "x \<notin> region ?F ((ss @ [q]) ! i)" by blast
      with i show "x \<notin> region ?F (ss ! i)" by (simp add: nth_append)
    qed
    from xin len have "inb W H (length g) x" by simp
    from fill' [OF this] nq out [OF xin old] show "vox W g' x = vox W g0 x" by simp
  qed
  from 1 2 3 4 len len' req show ?thesis unfolding labelled_def by simp
qed

lemma covers_skip:
  assumes lab: "labelled W H g0 ss g" and cov: "covers W H g0 ss D"
    and inb: "inb W H (length g0) q" and nf: "vox W g q \<noteq> Some foreground"
  shows "covers W H g0 ss (insert q D)"
proof -
  let ?F = "fgset W H g0"
  have "\<exists>i < length ss. q \<in> region ?F (ss ! i)" if qF: "q \<in> ?F"
  proof (rule ccontr)
    assume "\<not> (\<exists>i < length ss. q \<in> region ?F (ss ! i))"
    then have no: "\<forall>i < length ss. q \<notin> region ?F (ss ! i)" by blast
    from lab inb no have "vox W g q = vox W g0 q" unfolding labelled_def by blast
    with qF nf show False by (simp add: fgset_def)
  qed
  with cov show ?thesis unfolding covers_def by blast
qed

lemma covers_extend:
  assumes cov: "covers W H g0 ss D" and qF: "q \<in> fgset W H g0"
  shows "covers W H g0 (ss @ [q]) (insert q D)"
  unfolding covers_def
proof (intro ballI)
  fix x assume x: "x \<in> insert q D \<inter> fgset W H g0"
  show "\<exists>i < length (ss @ [q]). x \<in> region (fgset W H g0) ((ss @ [q]) ! i)"
  proof (cases "x = q")
    case True
    have "length ss < length (ss @ [q])" by simp
    moreover have "x \<in> region (fgset W H g0) ((ss @ [q]) ! length ss)"
      using True qF by (simp add: region.start)
    ultimately show ?thesis by blast
  next
    case False
    with x cov obtain i where i: "i < length ss" "x \<in> region (fgset W H g0) (ss ! i)"
      unfolding covers_def by blast
    then have "i < length (ss @ [q])" "x \<in> region (fgset W H g0) ((ss @ [q]) ! i)"
      by (simp_all add: nth_append)
    then show ?thesis by blast
  qed
qed

lemma scan_labels:
  assumes "labelled W H g0 ss g" "c = 3 + length ss" "c < 255"
    and "in_grid W H (length g0) ps"
    and "covers W H g0 ss (set (map ic pre))" "subseq ss (map ic pre)"
  shows "\<exists>res ss'. scan W H (length g0) ps g c = Some res \<and>
           outcome W H g0 (map ic (pre @ ps)) res ss'"
  using assms
proof (induction ps arbitrary: g c ss pre)
  case Nil
  then have "outcome W H g0 (map ic (pre @ [])) (Finished g c) ss"
    by (simp add: outcome_def)
  then show ?case by auto
next
  case (Cons p ps)
  let ?N = "length g0" and ?q = "ic p"
  from Cons.prems(4) have inb: "inb W H ?N ?q" and rest: "in_grid W H ?N ps"
    by (simp_all add: in_grid_Cons)
  from Cons.prems(1) have len: "length g = ?N" by (simp add: labelled_def)
  show ?case
  proof (cases "vox W g ?q \<noteq> Some foreground")
    case True
    have cov: "covers W H g0 ss (set (map ic (pre @ [p])))"
      using covers_skip [OF Cons.prems(1,5) inb True] by simp
    have sub: "subseq ss (map ic (pre @ [p]))"
      using subseq_rev_drop_many [OF Cons.prems(6), of "[?q]"] by simp
    from Cons.IH [OF Cons.prems(1,2,3) rest cov sub] True show ?thesis
      by (simp add: scan_Cons)
  next
    case False
    then have qg: "?q \<in> fgset W H g" using inb len by (simp add: fgset_def)
    have c3: "3 \<le> c" using Cons.prems(2) by simp
    from flood_fills [OF qg c3 Cons.prems(3)]
    obtain s where fl: "flood W H (length g) c (seeded W g ?q) = Some s"
      and len': "length (bufs s) = length g"
      and fill: "\<forall>x. inb W H (length g) x \<longrightarrow>
                   vox W (bufs s) x = (if x \<in> region (fgset W H g) ?q then Some c else vox W g x)"
      by blast
    from fill Cons.prems(2)
    have fill': "\<forall>x. inb W H (length g) x \<longrightarrow>
                   vox W (bufs s) x = (if x \<in> region (fgset W H g) ?q then Some (3 + length ss)
                                       else vox W g x)" by simp
    from labelled_extend [OF Cons.prems(1) qg len' fill']
    have lab': "labelled W H g0 (ss @ [?q]) (bufs s)" by simp
    from qg labelled_fgset [OF Cons.prems(1)] have qF: "?q \<in> fgset W H g0" by simp
    have sub1: "subseq (ss @ [?q]) (map ic pre @ [?q])"
      using Cons.prems(6) by (simp add: list_emb_append_mono)
    show ?thesis
    proof (cases "c + 1 \<ge> seedVal")
      case True
      with Cons.prems(2,3) have c255: "c + 1 = 255" "c + 1 = 3 + length (ss @ [?q])"
        by (simp_all add: seedVal_def)
      have "subseq (ss @ [?q]) (map ic (pre @ p # ps))"
        using subseq_rev_drop_many [OF sub1, of "map ic ps"] by simp
      with lab' c255 have "outcome W H g0 (map ic (pre @ p # ps)) (Capacity (bufs s) (c + 1)) (ss @ [?q])"
        by (simp add: outcome_def)
      moreover have "scan W H ?N (p # ps) g c = Some (Capacity (bufs s) (c + 1))"
        using False fl len True by (simp add: scan_Cons)
      ultimately show ?thesis by blast
    next
      case ge: False
      then have c1: "c + 1 = 3 + length (ss @ [?q])" "c + 1 < 255"
        using Cons.prems(2) by (simp_all add: seedVal_def)
      have cov: "covers W H g0 (ss @ [?q]) (set (map ic (pre @ [p])))"
        using covers_extend [OF Cons.prems(5) qF] by simp
      have sub: "subseq (ss @ [?q]) (map ic (pre @ [p]))" using sub1 by simp
      from Cons.IH [OF lab' c1 rest cov sub] False fl len ge show ?thesis
        by (simp add: scan_Cons)
    qed
  qed
qed

lemma labelled_start: "labelled W H g0 [] g0"
  by (simp add: labelled_def)

lemma label_pass_outcome:
  "\<exists>res ss. label_pass W H g0 = Some res \<and>
     outcome W H g0 (map ic (raster W H (length g0))) res ss"
proof -
  have cov: "covers W H g0 [] (set (map ic []))" by (simp add: covers_def)
  have "\<exists>res ss'. scan W H (length g0) (raster W H (length g0)) g0 3 = Some res \<and>
           outcome W H g0 (map ic ([] @ raster W H (length g0))) res ss'"
    by (rule scan_labels [OF labelled_start _ _ in_grid_raster cov]) simp_all
  then show ?thesis by (simp add: label_pass_def)
qed

lemma outcome_ids:
  assumes "outcome W H g0 order res ss"
  shows "subseq ss order \<and> counter_of res = 3 + length ss \<and>
     (\<forall>i < length ss. ss ! i \<in> fgset W H g0 \<and> 3 + i < seedVal \<and>
        {q \<in> fgset W H g0. vox W (planes_of res) q = Some (3 + i)}
          = region (fgset W H g0) (ss ! i)) \<and>
     (\<forall>i < length ss. \<forall>j < length ss. i < j \<longrightarrow>
        region (fgset W H g0) (ss ! i) \<inter> region (fgset W H g0) (ss ! j) = {}) \<and>
     (\<forall>q. inb W H (length g0) q \<and> (\<forall>i < length ss. q \<notin> region (fgset W H g0) (ss ! i)) \<longrightarrow>
        vox W (planes_of res) q = vox W g0 q) \<and>
     (finished res \<longrightarrow> covers W H g0 ss (set order))"
proof -
  let ?F = "fgset W H g0" and ?g = "planes_of res"
  from assms have lab: "labelled W H g0 ss ?g" and cnt: "counter_of res = 3 + length ss"
    and sub: "subseq ss order"
    and fin: "if finished res then counter_of res < 255 \<and> covers W H g0 ss (set order)
              else counter_of res = 255"
    unfolding outcome_def by blast+
  from lab have sF: "\<And>i. i < length ss \<Longrightarrow> ss ! i \<in> ?F"
    and dj: "\<And>i j. i < length ss \<Longrightarrow> j < length ss \<Longrightarrow> i \<noteq> j \<Longrightarrow>
               region ?F (ss ! i) \<inter> region ?F (ss ! j) = {}"
    and val: "\<And>i x. i < length ss \<Longrightarrow> x \<in> region ?F (ss ! i) \<Longrightarrow> vox W ?g x = Some (3 + i)"
    and out: "\<And>x. inb W H (length g0) x \<Longrightarrow> \<forall>i < length ss. x \<notin> region ?F (ss ! i) \<Longrightarrow>
                vox W ?g x = vox W g0 x"
    unfolding labelled_def by blast+
  have bound: "3 + i < seedVal" if "i < length ss" for i
    using that cnt fin by (auto simp: seedVal_def split: if_splits)
  have exact: "{q \<in> ?F. vox W ?g q = Some (3 + i)} = region ?F (ss ! i)" if i: "i < length ss" for i
  proof (intro set_eqI iffI)
    fix q assume "q \<in> {q \<in> ?F. vox W ?g q = Some (3 + i)}"
    then have qF: "q \<in> ?F" and v: "vox W ?g q = Some (3 + i)" by simp_all
    show "q \<in> region ?F (ss ! i)"
    proof (cases "\<exists>j < length ss. q \<in> region ?F (ss ! j)")
      case True
      then obtain j where j: "j < length ss" "q \<in> region ?F (ss ! j)" by blast
      from val [OF j] v have "j = i" by simp
      with j show ?thesis by simp
    next
      case False
      then have no: "\<forall>j < length ss. q \<notin> region ?F (ss ! j)" by blast
      from qF have "inb W H (length g0) q" "vox W g0 q = Some foreground"
        by (simp_all add: fgset_def)
      with out [OF _ no] v show ?thesis by (simp add: foreground_def)
    qed
  next
    fix q assume q: "q \<in> region ?F (ss ! i)"
    from val [OF i q] region_sub [OF q]
    show "q \<in> {q \<in> ?F. vox W ?g q = Some (3 + i)}" by simp
  qed
  have cover: "covers W H g0 ss (set order)" if "finished res"
    using that fin by simp
  have a: "\<forall>i < length ss. ss ! i \<in> ?F \<and> 3 + i < seedVal \<and>
        {q \<in> ?F. vox W ?g q = Some (3 + i)} = region ?F (ss ! i)"
    using sF bound exact by blast
  have b: "\<forall>i < length ss. \<forall>j < length ss. i < j \<longrightarrow>
        region ?F (ss ! i) \<inter> region ?F (ss ! j) = {}"
    using dj by (simp add: less_imp_neq)
  have c: "\<forall>q. inb W H (length g0) q \<and> (\<forall>i < length ss. q \<notin> region ?F (ss ! i)) \<longrightarrow>
        vox W ?g q = vox W g0 q"
    using out by blast
  have d: "finished res \<longrightarrow> covers W H g0 ss (set order)"
    using cover by blast
  from sub cnt a b c d show ?thesis by (intro conjI)
qed

lemma raster_complete:
  assumes "inb W H N q"
  shows "q \<in> set (map ic (raster W H N))"
proof -
  obtain x y z where q: "q = (x, y, z)" by (cases q)
  from assms have "nat x < W" "nat y < H" "nat z < N" by (auto simp: q inb_def)
  then have "(nat x, nat y, nat z) \<in> set (raster W H N)"
    by (force simp: raster_def)
  moreover from assms have "ic (nat x, nat y, nat z) = q" by (simp add: q inb_def ic_def)
  ultimately show ?thesis by force
qed

lemma label_pass_regions:
  "\<exists>res ss. label_pass W H g0 = Some res \<and>
     subseq ss (map ic (raster W H (length g0))) \<and>
     counter_of res = 3 + length ss \<and>
     (\<forall>i < length ss. ss ! i \<in> fgset W H g0 \<and> 3 + i < seedVal \<and>
        {q \<in> fgset W H g0. vox W (planes_of res) q = Some (3 + i)}
          = region (fgset W H g0) (ss ! i)) \<and>
     (\<forall>i < length ss. \<forall>j < length ss. i < j \<longrightarrow>
        region (fgset W H g0) (ss ! i) \<inter> region (fgset W H g0) (ss ! j) = {}) \<and>
     (\<forall>q. inb W H (length g0) q \<and> (\<forall>i < length ss. q \<notin> region (fgset W H g0) (ss ! i)) \<longrightarrow>
        vox W (planes_of res) q = vox W g0 q) \<and>
     (finished res \<longrightarrow> counter_of res < seedVal \<and>
        (\<forall>q \<in> fgset W H g0. \<exists>i < length ss. q \<in> region (fgset W H g0) (ss ! i))) \<and>
     (\<not> finished res \<longrightarrow> counter_of res = seedVal)"
proof -
  from label_pass_outcome [of W H g0] obtain res ss
    where lp: "label_pass W H g0 = Some res"
      and oc: "outcome W H g0 (map ic (raster W H (length g0))) res ss" by blast
  have "\<forall>q \<in> fgset W H g0. \<exists>i < length ss. q \<in> region (fgset W H g0) (ss ! i)"
    if "covers W H g0 ss (set (map ic (raster W H (length g0))))"
  proof
    fix q assume q: "q \<in> fgset W H g0"
    then have "inb W H (length g0) q" by (simp add: fgset_def)
    from raster_complete [OF this] q that
    show "\<exists>i < length ss. q \<in> region (fgset W H g0) (ss ! i)"
      unfolding covers_def by blast
  qed
  moreover from oc have "\<not> finished res \<longrightarrow> counter_of res = seedVal"
    by (auto simp: outcome_def seedVal_def)
  moreover from oc have "finished res \<longrightarrow> counter_of res < seedVal"
    by (auto simp: outcome_def seedVal_def)
  ultimately show ?thesis using outcome_ids [OF oc] lp by blast
qed

subsection \<open>A block is one region\<close>

lemma box_step:
  assumes "p \<in> box x0 y0 z0 a b n" "q \<in> box x0 y0 z0 a b n" "dist3 p q = Suc k"
  shows "\<exists>m \<in> box x0 y0 z0 a b n. dist3 p m = k \<and> adj m q"
proof -
  obtain x y z where p: "p = (x, y, z)" by (cases p)
  obtain x' y' z' where q: "q = (x', y', z')" by (cases q)
  have "\<not> (x' = x \<and> y' = y \<and> z' = z)"
    using assms(3) by (auto simp: p q dist3_def)
  then consider "x' \<noteq> x" | "x' = x" "y' \<noteq> y" | "x' = x" "y' = y" "z' \<noteq> z"
    by blast
  then show ?thesis
  proof cases
    case 1
    define m where "m = (if x < x' then x' - 1 else x' + 1, y', z')"
    have "m \<in> box x0 y0 z0 a b n" "adj m q"
      using assms(1,2) 1 by (auto simp: m_def p q box_def adj_def)
    moreover have "dist3 p m = k"
      using assms(3) 1 unfolding m_def p q dist3_def by (simp split: if_splits) linarith+
    ultimately show ?thesis by blast
  next
    case 2
    define m where "m = (x', if y < y' then y' - 1 else y' + 1, z')"
    have "m \<in> box x0 y0 z0 a b n" "adj m q"
      using assms(1,2) 2 by (auto simp: m_def p q box_def adj_def)
    moreover have "dist3 p m = k"
      using assms(3) 2 unfolding m_def p q dist3_def by (simp split: if_splits) linarith+
    ultimately show ?thesis by blast
  next
    case 3
    define m where "m = (x', y', if z < z' then z' - 1 else z' + 1)"
    have "m \<in> box x0 y0 z0 a b n" "adj m q"
      using assms(1,2) 3 by (auto simp: m_def p q box_def adj_def)
    moreover have "dist3 p m = k"
      using assms(3) 3 unfolding m_def p q dist3_def by (simp split: if_splits) linarith+
    ultimately show ?thesis by blast
  qed
qed

lemma box_connected_aux:
  "p \<in> box x0 y0 z0 a b n \<Longrightarrow> q \<in> box x0 y0 z0 a b n \<Longrightarrow> dist3 p q = k \<Longrightarrow>
   q \<in> region (box x0 y0 z0 a b n) p"
proof (induction k arbitrary: q)
  case 0
  then have "q = p" by (cases p, cases q) (auto simp: dist3_def)
  with 0(1) show ?case by (simp add: region.start)
next
  case (Suc k)
  from box_step [OF Suc.prems] obtain m where
    m: "m \<in> box x0 y0 z0 a b n" "dist3 p m = k" "adj m q" by blast
  from Suc.IH [OF Suc.prems(1) m(1,2)] Suc.prems(2) m(3) show ?case
    by (auto intro: region.step)
qed

lemma box_connected:
  "p \<in> box x0 y0 z0 a b n \<Longrightarrow> q \<in> box x0 y0 z0 a b n \<Longrightarrow> q \<in> region (box x0 y0 z0 a b n) p"
  by (rule box_connected_aux [OF _ _ refl])

lemma upload_numLabelsFound [simp]:
  "numLabelsFound (upload e W H N bpp g this) = numLabelsFound this"
  by (simp add: upload_def Let_def)

lemma single_region:
  assumes conn: "\<And>p q. p \<in> fgset W H g \<Longrightarrow> q \<in> fgset W H g \<Longrightarrow> q \<in> region (fgset W H g) p"
    and ne: "p0 \<in> fgset W H g"
  shows "\<exists>g'. label_pass W H g = Some (Finished g' 4) \<and>
           (\<forall>q \<in> fgset W H g. vox W g' q = Some 3) \<and>
           (\<forall>q. inb W H (length g) q \<and> q \<notin> fgset W H g \<longrightarrow> vox W g' q = vox W g q)"
proof -
  let ?F = "fgset W H g"
  from label_pass_regions [of W H g] obtain res ss where
    lp: "label_pass W H g = Some res"
    and cnt: "counter_of res = 3 + length ss"
    and ids: "\<forall>i < length ss. ss ! i \<in> ?F \<and> 3 + i < seedVal \<and>
        {q \<in> ?F. vox W (planes_of res) q = Some (3 + i)} = region ?F (ss ! i)"
    and dj: "\<forall>i < length ss. \<forall>j < length ss. i < j \<longrightarrow>
        region ?F (ss ! i) \<inter> region ?F (ss ! j) = {}"
    and out: "\<forall>q. inb W H (length g) q \<and> (\<forall>i < length ss. q \<notin> region ?F (ss ! i)) \<longrightarrow>
        vox W (planes_of res) q = vox W g q"
    and cov: "finished res \<longrightarrow> counter_of res < seedVal \<and>
                (\<forall>q \<in> ?F. \<exists>i < length ss. q \<in> region ?F (ss ! i))"
    and cap: "\<not> finished res \<longrightarrow> counter_of res = seedVal"
    by blast
  have le1: "length ss \<le> 1"
  proof (rule ccontr)
    assume "\<not> length ss \<le> 1"
    then have l: "0 < length ss" "1 < length ss" by linarith+
    from ids l have s0: "ss ! 0 \<in> ?F" and s1: "ss ! 1 \<in> ?F" by blast+
    from conn [OF s0 s1] region.start [OF s1]
    have "ss ! 1 \<in> region ?F (ss ! 0) \<inter> region ?F (ss ! 1)" by simp
    moreover from dj l have "region ?F (ss ! 0) \<inter> region ?F (ss ! 1) = {}" by simp
    ultimately show False by blast
  qed
  have fin: "finished res"
    using cap cnt le1 by (auto simp: seedVal_def)
  with cov ne obtain i where i: "i < length ss" "p0 \<in> region ?F (ss ! i)" by blast
  with le1 have l1: "length ss = 1" and i0: "i = 0" by simp_all
  obtain g' c where res: "res = Finished g' c" using fin by (cases res) simp_all
  with cnt l1 have c: "c = 4" by simp
  from ids l1 have s0: "ss ! 0 \<in> ?F"
    and ex: "{q \<in> ?F. vox W (planes_of res) q = Some 3} = region ?F (ss ! 0)" by auto
  have all3: "\<forall>q \<in> ?F. vox W g' q = Some 3"
  proof
    fix q assume "q \<in> ?F"
    from conn [OF s0 this] ex show "vox W g' q = Some 3" by (auto simp: res)
  qed
  have rest: "\<forall>q. inb W H (length g) q \<and> q \<notin> ?F \<longrightarrow> vox W g' q = vox W g q"
  proof (intro allI impI)
    fix q assume q: "inb W H (length g) q \<and> q \<notin> ?F"
    then have "\<forall>i < length ss. q \<notin> region ?F (ss ! i)" using region_sub by blast
    with out [rule_format, of q] q show "vox W g' q = vox W g q" by (simp add: res)
  qed
  from lp res c all3 rest show ?thesis by simp
qed

lemma fgset_grid_block: "fgset 2 2 grid_block = box 0 0 0 2 2 2"
proof -
  have v: "vox 2 grid_block (x, y, z) = Some foreground"
    if "0 \<le> x" "x < 2" "0 \<le> y" "y < 2" "0 \<le> z" "z < 2" for x y z :: int
  proof -
    from that have "x = 0 \<or> x = 1" "y = 0 \<or> y = 1" "z = 0 \<or> z = 1" by auto
    then show ?thesis
      by (auto simp: vox_def rd_def foreground_def grid_block_def)
  qed
  show ?thesis
    by (auto simp: fgset_def box_def inb_def grid_block_def [THEN arg_cong, of length] v)
qed

subsection \<open>What reaches the volume\<close>

lemma uploads_emit [simp]:
  "uploads (emit ev this) = uploads this @ (case ev of CopyImagesToTexture g \<Rightarrow> [g] | _ \<Rightarrow> [])"
  by (simp add: uploads_def emit_def)

lemma uploads_update [simp]:
  "uploads (this\<lparr> errors := x \<rparr>) = uploads this"
  "uploads (this\<lparr> done' := b \<rparr>) = uploads this"
  "uploads (this\<lparr> numLabelsFound := k \<rparr>) = uploads this"
  "uploads (this\<lparr> cancelled := b \<rparr>) = uploads this"
  by (simp_all add: uploads_def)

lemma uploads_steps [simp]:
  "uploads (suspend e k this) = uploads this"
  "uploads (SafeInvoke_progress a b this) = uploads this"
  "uploads (SafeInvoke_complete this) = uploads this"
  "uploads (onImageLoadingError arg this) = uploads this"
  "uploads (capacity_exit e this) = uploads this"
  by (simp_all add: suspend_def SafeInvoke_progress_def SafeInvoke_complete_def
        onImageLoadingError_def capacity_exit_def)


lemma upload_reports:
  "\<forall>rep \<in> set (completions (upload e W H N bpp g this)).
     rep \<in> set (completions this) \<or> r_numLabelsFound rep = numLabelsFound this"
  by (auto simp: upload_def Let_def report_of_def split: if_splits)

lemma numLabelsFound_steps [simp]:
  "numLabelsFound (onImageLoadingError arg this) = numLabelsFound this"
  "numLabelsFound (capacity_exit e this) = numLabelsFound this"
  by (simp_all add: onImageLoadingError_def capacity_exit_def)





subsection \<open>More regions than ids\<close>

lemma finite_inb: "finite {p. inb W H N p}"
proof -
  have "{p. inb W H N p} \<subseteq> ic ` ({..<W} \<times> {..<H} \<times> {..<N})"
  proof
    fix p assume "p \<in> {p. inb W H N p}"
    then obtain x y z where p: "p = (x, y, z)" and b: "0 \<le> x" "x < int W" "0 \<le> y" "y < int H"
      "0 \<le> z" "z < int N" by (cases p) (auto simp: inb_def)
    then have "(nat x, nat y, nat z) \<in> {..<W} \<times> {..<H} \<times> {..<N}" by auto
    moreover have "ic (nat x, nat y, nat z) = p" using b by (simp add: p ic_def)
    ultimately show "p \<in> ic ` ({..<W} \<times> {..<H} \<times> {..<N})" by (metis imageI)
  qed
  then show ?thesis by (rule finite_subset) simp
qed

lemma finite_fgset: "finite (fgset W H g)"
  by (rule finite_subset [OF _ finite_inb [of W H "length g"]]) (auto simp: fgset_def)

lemma many_regions_capacity:
  assumes "251 < card (region (fgset W H g) ` fgset W H g)"
  shows "\<exists>g'. label_pass W H g = Some (Capacity g' seedVal)"
proof -
  let ?F = "fgset W H g"
  from label_pass_regions [of W H g] obtain res ss where
    lp: "label_pass W H g = Some res"
    and cnt: "counter_of res = 3 + length ss"
    and cov: "finished res \<longrightarrow> counter_of res < seedVal \<and>
                (\<forall>q \<in> ?F. \<exists>i < length ss. q \<in> region ?F (ss ! i))"
    and cap: "\<not> finished res \<longrightarrow> counter_of res = seedVal"
    by blast
  have nf: "\<not> finished res"
  proof
    assume f: "finished res"
    with cov cnt have l: "length ss < 252" by (simp add: seedVal_def)
    have "region ?F ` ?F \<subseteq> (\<lambda>i. region ?F (ss ! i)) ` {..<length ss}"
    proof
      fix R assume "R \<in> region ?F ` ?F"
      then obtain q where q: "q \<in> ?F" "R = region ?F q" by blast
      with cov f obtain i where i: "i < length ss" "q \<in> region ?F (ss ! i)" by blast
      from region_eq [OF i(2)] q(2) i(1)
      show "R \<in> (\<lambda>i. region ?F (ss ! i)) ` {..<length ss}" by blast
    qed
    then have "card (region ?F ` ?F) \<le> card ((\<lambda>i. region ?F (ss ! i)) ` {..<length ss})"
      by (intro card_mono) simp_all
    also have "\<dots> \<le> card {..<length ss}" by (rule card_image_le) simp
    finally show False using l assms by simp
  qed
  with cap have "counter_of res = seedVal" by simp
  with nf lp show ?thesis by (cases res) simp_all
qed

lemma isolated_region:
  assumes "p \<in> F" "\<forall>r \<in> F. adj p r \<longrightarrow> r = p"
  shows "region F p = {p}"
proof -
  have "q = p" if "q \<in> region F p" for q
    using that assms(2) by (induction rule: region.induct) auto
  with region.start [OF assms(1)] show ?thesis by blast
qed

lemma isolated_count:
  assumes "I \<subseteq> F" "\<forall>p \<in> I. \<forall>r \<in> F. adj p r \<longrightarrow> r = p" "finite F"
  shows "card I \<le> card (region F ` F)"
proof -
  have sing: "region F p = {p}" if "p \<in> I" for p
    using that assms(1,2) by (intro isolated_region) auto
  have "inj_on (region F) I"
    by (rule inj_onI) (simp add: sing)
  then have "card I = card (region F ` I)" by (simp add: card_image)
  also have "\<dots> \<le> card (region F ` F)"
    using assms(1,3) by (intro card_mono) auto
  finally show ?thesis .
qed

lemma vox_grid_252:
  assumes "0 \<le> z" "z < 503"
  shows "vox 1 grid_252 (0, 0, z) = Some (if even z then 2 else 1)"
proof -
  from assms have n: "nat z < 503" by simp
  have "grid_252 ! nat z = [if even (nat z) then 2 else 1]"
    using n by (simp add: grid_252_def)
  moreover have "even (nat z) \<longleftrightarrow> even z" using assms(1) by (simp add: even_nat_iff)
  ultimately show ?thesis by (simp add: vox_def rd_def)
qed

lemma fgset_grid_252:
  "fgset 1 1 grid_252 = {(0, 0, z) | z. 0 \<le> z \<and> z < 503 \<and> even z}"
proof -
  have len: "length grid_252 = 503" by (simp add: grid_252_def)
  show ?thesis
  proof (intro set_eqI iffI)
    fix p :: coord assume "p \<in> fgset 1 1 grid_252"
    then have i: "inb 1 1 503 p" and v: "vox 1 grid_252 p = Some foreground"
      by (simp_all add: fgset_def len)
    obtain x y z :: int where xyz: "p = (x, y, z)" by (cases p)
    from i have "x = 0" "y = 0" and z: "0 \<le> z" "z < 503" by (auto simp: xyz inb_def)
    then have p: "p = (0, 0, z)" by (simp add: xyz)
    from v vox_grid_252 [OF z] have "even z"
      unfolding p by (auto simp: foreground_def split: if_splits)
    with p z show "p \<in> {(0, 0, z) | z. 0 \<le> z \<and> z < 503 \<and> even z}" by blast
  next
    fix p :: coord assume "p \<in> {(0, 0, z) | z. 0 \<le> z \<and> z < 503 \<and> even z}"
    then obtain z :: int where p: "p = (0, 0, z)" and z: "0 \<le> z" "z < 503" "even z" by blast
    with vox_grid_252 [OF z(1,2)] have "vox 1 grid_252 p = Some foreground"
      by (simp add: foreground_def)
    moreover have "inb 1 1 503 p" using z by (simp add: p inb_def)
    ultimately show "p \<in> fgset 1 1 grid_252" by (simp add: fgset_def len)
  qed
qed

lemma regions_grid_252: "251 < card (region (fgset 1 1 grid_252) ` fgset 1 1 grid_252)"
proof -
  let ?F = "fgset 1 1 grid_252"
  let ?I = "(\<lambda>k. (0::int, 0::int, 2 * int k)) ` {..<252}"
  have sub: "?I \<subseteq> ?F" unfolding fgset_grid_252 by auto
  have iso: "\<forall>p \<in> ?I. \<forall>r \<in> ?F. adj p r \<longrightarrow> r = p"
  proof (intro ballI impI)
    fix p r :: coord assume "p \<in> ?I" "r \<in> ?F" "adj p r"
    then obtain k :: nat and z :: int
      where "p = (0, 0, 2 * int k)" "r = (0, 0, z)" "even z" "\<bar>z - 2 * int k\<bar> \<le> 1"
      unfolding fgset_grid_252 by (auto simp: adj_def)
    moreover from this have "z = 2 * int k" by presburger
    ultimately show "r = p" by simp
  qed
  have "inj_on (\<lambda>k. (0::int, 0::int, 2 * int k)) {..<252}" by (simp add: inj_on_def)
  then have "card ?I = 252" by (simp add: card_image)
  with isolated_count [OF sub iso finite_fgset] show ?thesis by simp
qed

subsection \<open>A session without progress callback\<close>

lemma decode_frames_quiet:
  "\<not> loadProgressCb this \<Longrightarrow> \<forall>f \<in> set fs. \<exists>b. data f = Inr b \<Longrightarrow>
   decode_frames e wh n z fs acc this
     = Inr (acc @ map (\<lambda>f. remap_plane wh (projr (data f))) fs, this)"
  by (induction fs arbitrary: z acc) (auto simp: Let_def)

lemma handle_to_labeling:
  assumes "\<not> cancelled this" "decoding e = Ifds ifds" "ifds \<noteq> []" "t258 (hd ifds) = 8"
    and "\<forall>f \<in> set ifds. \<exists>b. data f = Inr b" "\<not> loadProgressCb this"
  shows "handleMultiImageTiff e this
           = label_and_upload e (width (hd ifds)) (height (hd ifds)) 8 (remapped ifds) this"
proof -
  from assms(3) obtain ifd0 rest where i: "ifds = ifd0 # rest" by (cases ifds) auto
  from assms(5) i obtain b where b: "data ifd0 = Inr b" by auto
  have "decode_frames e (width ifd0 * height ifd0) (length ifds) 0 ifds [] this
          = Inr (remapped ifds, this)"
    using decode_frames_quiet [OF assms(6,5), of e "width ifd0 * height ifd0" "length ifds" 0 "[]"]
    by (simp add: remapped_def i)
  with assms(1,2,4) b i show ?thesis
    by (simp add: handleMultiImageTiff_def Let_def del: decode_frames.simps)
qed

lemma remapped_pages_252: "remapped pages_252 = grid_252"
proof -
  have hd: "hd pages_252 = ifd_1x1 1"
    by (simp add: pages_252_def hd_map hd_upt)
  have r: "remap_plane (Suc 0) [1] = [2]" "remap_plane (Suc 0) [0] = [1]"
    by (simp_all add: remap_plane_def remap_at_def rd_def wr_def remap_def
          foreground_def background_def unlabeled_def)
  show ?thesis
    unfolding remapped_def hd
    by (simp add: pages_252_def grid_252_def ifd_1x1_def r)
qed

section \<open>The claims\<close>

text \<open>
  Claim C1. What the code does when the foreground voxels of the grid form more than 251
  maximal 26-connected regions and the loader is neither cancelled nor done (as it is
  whenever the labeling pass is reached): the session ends done, no plane is handed to the
  volume, the component count is left as it was, and the completion callback, when one was
  given, is called once with the error text. The error text is the capacity message of
  line 187 only when some script declares a global \<^verbatim>\<open>tooManyComponents\<close>; otherwise the
  assignment of line 186 throws in strict mode, lines 187 to 190 are skipped, and the
  \<^verbatim>\<open>catch\<close> of line 215 stores the message of the \<^verbatim>\<open>ReferenceError\<close>.
\<close>

theorem too_many_components_exit:
  assumes "251 < card (region (fgset W H g) ` fgset W H g)"
    and "\<not> cancelled this" "\<not> done' this"
  shows "\<exists>r. label_and_upload e W H bpp g this = Some r \<and> done' r \<and>
           numLabelsFound r = numLabelsFound this \<and> uploads r = uploads this \<and>
           errors r = Some (if tooManyComponents_declared e
                            then ''LabelLoader: Volume has too many connected components.''
                            else if ReferenceError_message e \<noteq> [] then ReferenceError_message e
                            else ''Error loading image.'') \<and>
           completions r = completions this @
             (if loadCompleteCb this
              then [\<lparr> r_done = True, r_errors = errors r, r_warnings = warnings this,
                      r_numLabelsFound = numLabelsFound this \<rparr>]
              else [])"
proof -
  from many_regions_capacity [OF assms(1)] obtain g' where
    "label_pass W H g = Some (Capacity g' seedVal)" by blast
  then have "label_and_upload e W H bpp g this = Some (capacity_exit e this)"
    by (simp add: label_and_upload_def)
  then show ?thesis using assms(2,3)
    by (simp add: capacity_exit_def onImageLoadingError_def report_of_def)
qed

text \<open>
  On the stack of 503 one-pixel pages, with no global \<^verbatim>\<open>tooManyComponents\<close> and the message
  V8 gives, the error text is not the capacity message.
\<close>

theorem too_many_components_exit_witness:
  "251 < card (region (fgset 1 1 grid_252) ` fgset 1 1 grid_252) \<and>
   \<not> tooManyComponents_declared env_252 \<and>
   ReferenceError_message env_252 = ''tooManyComponents is not defined'' \<and>
   (\<exists>r. session env_252 [File] True False loader_new = Some r \<and> done' r \<and>
        numLabelsFound r = 0 \<and> uploads r = [] \<and>
        errors r = Some ''tooManyComponents is not defined'' \<and>
        errors r \<noteq> Some ''LabelLoader: Volume has too many connected components.'' \<and>
        completions r = [\<lparr> r_done = True, r_errors = Some ''tooManyComponents is not defined'',
                            r_warnings = None, r_numLabelsFound = 0 \<rparr>])"
proof -
  define t where "t = suspend env_252 0 (fst (loadImagesIntoVolume [File] True False loader_new))"
  have t: "\<not> cancelled t" "\<not> done' t" "\<not> loadProgressCb t" "loadCompleteCb t"
    "numLabelsFound t = 0" "warnings t = None" "uploads t = []" "completions t = []"
    by (simp_all add: t_def loadImagesIntoVolume_def loader_new_def env_252_def env_plain_def
          SafeInvoke_progress_def suspend_def emit_def uploads_def completions_def)
  have e: "\<not> tooManyComponents_declared env_252"
    "ReferenceError_message env_252 = ''tooManyComponents is not defined''"
    "decoding env_252 = Ifds pages_252" "reading env_252 = Loaded"
    by (simp_all add: env_252_def env_plain_def)
  have hd: "hd pages_252 = ifd_1x1 1"
    by (simp add: pages_252_def hd_map hd_upt)
  have p: "pages_252 \<noteq> []" "t258 (hd pages_252) = 8" "width (hd pages_252) = 1"
    "height (hd pages_252) = 1" "\<forall>f \<in> set pages_252. \<exists>b. data f = Inr b"
    unfolding hd by (auto simp: pages_252_def ifd_1x1_def)
  have s: "session env_252 [File] True False loader_new = handleMultiImageTiff env_252 t"
    by (simp add: session_def t_def loadImagesIntoVolume_def e Let_def)
  have h: "handleMultiImageTiff env_252 t = label_and_upload env_252 1 1 8 grid_252 t"
    using handle_to_labeling [OF t(1) e(3) p(1,2,5) t(3)] by (simp add: p remapped_pages_252)
  from too_many_components_exit [OF regions_grid_252 t(1,2), of env_252 8]
  obtain r where r: "label_and_upload env_252 1 1 8 grid_252 t = Some r" "done' r"
    "numLabelsFound r = 0" "uploads r = []"
    "errors r = Some ''tooManyComponents is not defined''"
    "completions r = [\<lparr> r_done = True, r_errors = errors r, r_warnings = None,
                        r_numLabelsFound = 0 \<rparr>]"
    by (auto simp: e t)
  have "session env_252 [File] True False loader_new = Some r" unfolding s h by (rule r(1))
  with r e regions_grid_252 show ?thesis by simp
qed

text \<open>
  Claim C2, as amended. For every load request whose file list passes validation (not
  empty, every item a file or a file handle), the session ends, and when the cancellation
  flag is set at its end the completion callback was never called. The flag can only be
  set before the labeling pass starts (before the request, while the bytes are fetched, or
  around a page's progress call), so a set flag at the end is a flag set before labeling.
  In particular a flag set before the request or while the bytes are fetched suppresses
  the callback.
\<close>

theorem cancelled_session_without_completion:
  assumes "valid_items imgFiles"
  shows "\<exists>this. session e imgFiles completionCb progressCb this0 = Some this \<and>
           (cancelled this \<longrightarrow> completions this = []) \<and>
           (cancelled this0 \<or> cancel_at e 0 \<longrightarrow> cancelled this)"
proof -
  from load_valid [OF assms, of completionCb progressCb this0]
  obtain t where t: "loadImagesIntoVolume imgFiles completionCb progressCb this0 = (t, True)"
    "cancelled t = cancelled this0" "completions t = []" "\<not> done' t" by blast
  let ?t1 = "suspend e 0 t"
  show ?thesis
  proof (cases "reading e")
    case ReadFailed
    with t show ?thesis
      by (auto simp: session_def Let_def onImageLoadingError_def)
  next
    case Loaded
    from handle_total [of e ?t1] obtain r where r: "handleMultiImageTiff e ?t1 = Some r" by blast
    have c: "completions ?t1 = []" using t by simp
    from handle_cancel [OF c r] have 1: "cancelled r \<longrightarrow> completions r = []" .
    have 2: "cancelled this0 \<or> cancel_at e 0 \<longrightarrow> cancelled r"
      using r t(2) by (auto simp: handleMultiImageTiff_def)
    from 1 2 r t(1) Loaded show ?thesis by (simp add: session_def Let_def)
  qed
qed

theorem cancelled_session_without_completion_witness:
  "valid_items [File] \<and>
   (\<exists>this. session env_cancel_page0 [File] True True loader_new = Some this \<and>
           cancelled this \<and> completions this = [] \<and>
           progress_calls this = [(0, 1), (0, 2)])"
proof -
  have v: "valid_items [File]" by (simp add: valid_items_def)
  have s: "session env_cancel_page0 [File] True True loader_new
             = Some (loader_new\<lparr> fileList := [File], done' := False, cancelled := True,
                                 loadCompleteCb := True, loadProgressCb := True,
                                 log := [ProgressCb 0 1, ReadAsArrayBuffer, ProgressCb 0 2] \<rparr>)"
    by code_simp
  from cancelled_session_without_completion [OF v, of env_cancel_page0 True True loader_new] v
  show ?thesis unfolding s by (simp add: progress_calls_def)
qed

text \<open>
  Claim C2 as stated fails: the two validation exits of \<^verbatim>\<open>loadImagesIntoVolume\<close> do not
  look at the flag. With the flag already set and an empty file list, the completion
  callback is called.
\<close>

theorem cancelled_empty_list_still_completes:
  "\<exists>this. session (env_plain DecodeRaises) [] True True (loader_new\<lparr> cancelled := True \<rparr>) = Some this \<and>
          cancelled this \<and>
          completions this =
            [\<lparr> r_done = True, r_errors = None,
               r_warnings = Some ''LabelLoader: No files were loaded, because the supplied file list was empty.'',
               r_numLabelsFound = 0 \<rparr>]"
  by (simp add: session_def loadImagesIntoVolume_def loader_new_def SafeInvoke_complete_def
        emit_def report_of_def completions_def)






text \<open>
  Claim C5. When the labeling pass runs to its end with the counter at \<open>c\<close>, the loader
  goes on with a component count of \<open>c - 3\<close>, and every completion report made from then
  on carries that count. When the foreground voxels of the grid are exactly one block of
  \<open>a\<close> by \<open>b\<close> by \<open>n\<close> voxels, all at least 1 (2 by 2 by \<open>n\<close> is the case \<open>a = b = 2\<close>),
  the pass ends with the counter at 4, every voxel of the block holds 3, every other voxel
  keeps its value, and the component count is 1.
\<close>

theorem count_from_counter_and_single_block:
  "(label_pass W H g = Some (Finished g' c) \<longrightarrow>
      (\<exists>r. label_and_upload e W H bpp g this = Some r \<and> numLabelsFound r = c - 3 \<and>
           (\<forall>rep \<in> set (completions r).
              rep \<in> set (completions this) \<or> r_numLabelsFound rep = c - 3))) \<and>
   (1 \<le> a \<and> 1 \<le> b \<and> 1 \<le> n \<and> fgset W H g = box x0 y0 z0 a b n \<longrightarrow>
      (\<exists>g1 r. label_pass W H g = Some (Finished g1 4) \<and>
         (\<forall>q \<in> box x0 y0 z0 a b n. vox W g1 q = Some 3) \<and>
         (\<forall>q. inb W H (length g) q \<and> q \<notin> box x0 y0 z0 a b n \<longrightarrow> vox W g1 q = vox W g q) \<and>
         label_and_upload e W H bpp g this = Some r \<and> numLabelsFound r = 1 \<and>
         (\<forall>rep \<in> set (completions r).
            rep \<in> set (completions this) \<or> r_numLabelsFound rep = 1)))"
proof -
  have up: "\<exists>r. label_and_upload e W H bpp g this = Some r \<and> numLabelsFound r = k - 3 \<and>
           (\<forall>rep \<in> set (completions r).
              rep \<in> set (completions this) \<or> r_numLabelsFound rep = k - 3)"
    if "label_pass W H g = Some (Finished g2 k)" for g2 k
    using that upload_reports [of e W H "length g" bpp g2 "this\<lparr> numLabelsFound := k - 3 \<rparr>"]
    by (simp add: label_and_upload_def)
  have 2: "\<exists>g1 r. label_pass W H g = Some (Finished g1 4) \<and>
         (\<forall>q \<in> box x0 y0 z0 a b n. vox W g1 q = Some 3) \<and>
         (\<forall>q. inb W H (length g) q \<and> q \<notin> box x0 y0 z0 a b n \<longrightarrow> vox W g1 q = vox W g q) \<and>
         label_and_upload e W H bpp g this = Some r \<and> numLabelsFound r = 1 \<and>
         (\<forall>rep \<in> set (completions r).
            rep \<in> set (completions this) \<or> r_numLabelsFound rep = 1)"
    if h: "1 \<le> a \<and> 1 \<le> b \<and> 1 \<le> n \<and> fgset W H g = box x0 y0 z0 a b n"
  proof -
    from h have F: "fgset W H g = box x0 y0 z0 a b n" by simp
    have p0: "(int x0, int y0, int z0) \<in> fgset W H g" using h by (simp add: F box_def)
    have conn: "\<And>p q. p \<in> fgset W H g \<Longrightarrow> q \<in> fgset W H g \<Longrightarrow> q \<in> region (fgset W H g) p"
      unfolding F by (rule box_connected)
    from single_region [OF conn p0] obtain g1 where
      lp: "label_pass W H g = Some (Finished g1 4)"
      and a: "\<forall>q \<in> fgset W H g. vox W g1 q = Some 3"
      and b: "\<forall>q. inb W H (length g) q \<and> q \<notin> fgset W H g \<longrightarrow> vox W g1 q = vox W g q"
      by blast
    from up [OF lp] obtain r where "label_and_upload e W H bpp g this = Some r"
      "numLabelsFound r = 1"
      "\<forall>rep \<in> set (completions r). rep \<in> set (completions this) \<or> r_numLabelsFound rep = 1"
      by auto
    with lp a b show ?thesis unfolding F by blast
  qed
  from up [of g' c] 2 show ?thesis by blast
qed

theorem count_from_counter_and_single_block_witness:
  "label_pass 2 2 grid_block = Some (Finished [[3, 3, 3, 3], [3, 3, 3, 3]] 4) \<and>
   (1::nat) \<le> 2 \<and> fgset 2 2 grid_block = box 0 0 0 2 2 2 \<and>
   (\<exists>g1 r. label_pass 2 2 grid_block = Some (Finished g1 4) \<and>
         (\<forall>q \<in> box 0 0 0 2 2 2. vox 2 g1 q = Some 3) \<and>
         (\<forall>q. inb 2 2 (length grid_block) q \<and> q \<notin> box 0 0 0 2 2 2 \<longrightarrow> vox 2 g1 q = vox 2 grid_block q) \<and>
         label_and_upload (env_plain DecodeRaises) 2 2 8 grid_block loader_busy = Some r \<and>
         numLabelsFound r = 4 - 3 \<and>
         completions r = [\<lparr> r_done = True, r_errors = None, r_warnings = None,
                            r_numLabelsFound = 1 \<rparr>] \<and>
         (\<forall>rep \<in> set (completions r).
            rep \<in> set (completions loader_busy) \<or> r_numLabelsFound rep = 1))"
proof -
  have e: "label_pass 2 2 grid_block = Some (Finished [[3, 3, 3, 3], [3, 3, 3, 3]] 4)"
    by code_simp
  have u: "label_and_upload (env_plain DecodeRaises) 2 2 8 grid_block loader_busy
             = Some (loader_busy\<lparr> done' := True, numLabelsFound := 1,
                       log := [ReadAsArrayBuffer, LoadBegin 2 2 2 8,
                               CopyImagesToTexture [[3, 3, 3, 3], [3, 3, 3, 3]], LoadEnd,
                               CompleteCb \<lparr> r_done = True, r_errors = None, r_warnings = None,
                                             r_numLabelsFound = 1 \<rparr>] \<rparr>)"
    by code_simp
  note f = fgset_grid_block
  from count_from_counter_and_single_block
         [of 2 2 grid_block "[[3, 3, 3, 3], [3, 3, 3, 3]]" 4 "env_plain DecodeRaises" 8 loader_busy
             2 2 2 0 0 0]
       e f
  show ?thesis unfolding u by (simp add: completions_def)
qed



text \<open>
  Claim C7. The labeling pass returns, and there is a list \<open>ss\<close> of start voxels, in the
  order the scan meets them (a subsequence of the z, y, x order), such that: the counter
  ends at 3 plus their number; the \<open>i\<close>-th start voxel is a foreground voxel of the input
  and its id \<open>3 + i\<close> is below the seed value 255; the foreground voxels of the input that
  end up holding \<open>3 + i\<close> are exactly the maximal 26-connected region of the \<open>i\<close>-th start
  voxel; different start voxels have disjoint regions; every voxel outside these regions
  keeps its value; when the pass runs to its end the counter is below 255 and every
  foreground voxel lies in one of the regions, and when it stops early the counter has
  reached 255.
\<close>

theorem component_ids:
  "\<exists>res ss. label_pass W H g0 = Some res \<and>
     subseq ss (map ic (raster W H (length g0))) \<and>
     counter_of res = 3 + length ss \<and>
     (\<forall>i < length ss. ss ! i \<in> fgset W H g0 \<and> 3 + i < seedVal \<and>
        {q \<in> fgset W H g0. vox W (planes_of res) q = Some (3 + i)}
          = region (fgset W H g0) (ss ! i)) \<and>
     (\<forall>i < length ss. \<forall>j < length ss. i < j \<longrightarrow>
        region (fgset W H g0) (ss ! i) \<inter> region (fgset W H g0) (ss ! j) = {}) \<and>
     (\<forall>q. inb W H (length g0) q \<and> (\<forall>i < length ss. q \<notin> region (fgset W H g0) (ss ! i)) \<longrightarrow>
        vox W (planes_of res) q = vox W g0 q) \<and>
     (finished res \<longrightarrow> counter_of res < seedVal \<and>
        (\<forall>q \<in> fgset W H g0. \<exists>i < length ss. q \<in> region (fgset W H g0) (ss ! i))) \<and>
     (\<not> finished res \<longrightarrow> counter_of res = seedVal)"
  by (rule label_pass_regions)

theorem component_ids_witness:
  "label_pass 3 1 [[2, 1, 2]] = Some (Finished [[3, 1, 4]] 5) \<and>
   (\<exists>ss. subseq ss (map ic (raster 3 1 (length [[2, 1, 2 :: 8 word]]))) \<and>
     counter_of (Finished [[3, 1, 4]] 5) = 3 + length ss \<and>
     (\<forall>i < length ss. ss ! i \<in> fgset 3 1 [[2, 1, 2]] \<and> 3 + i < seedVal \<and>
        {q \<in> fgset 3 1 [[2, 1, 2]]. vox 3 (planes_of (Finished [[3, 1, 4]] 5)) q = Some (3 + i)}
          = region (fgset 3 1 [[2, 1, 2]]) (ss ! i)) \<and>
     (\<forall>i < length ss. \<forall>j < length ss. i < j \<longrightarrow>
        region (fgset 3 1 [[2, 1, 2]]) (ss ! i) \<inter> region (fgset 3 1 [[2, 1, 2]]) (ss ! j) = {}) \<and>
     (\<forall>q. inb 3 1 (length [[2, 1, 2 :: 8 word]]) q \<and>
           (\<forall>i < length ss. q \<notin> region (fgset 3 1 [[2, 1, 2]]) (ss ! i)) \<longrightarrow>
        vox 3 (planes_of (Finished [[3, 1, 4]] 5)) q = vox 3 [[2, 1, 2]] q) \<and>
     finished (Finished [[3, 1, 4]] 5) \<and> counter_of (Finished [[3, 1, 4]] 5) < seedVal \<and>
     (\<forall>q \<in> fgset 3 1 [[2, 1, 2]]. \<exists>i < length ss. q \<in> region (fgset 3 1 [[2, 1, 2]]) (ss ! i)))"
proof -
  have e: "label_pass 3 1 [[2, 1, 2]] = Some (Finished [[3, 1, 4]] 5)" by code_simp
  from component_ids [of 3 1 "[[2, 1, 2]]"] obtain res ss where
    r: "label_pass 3 1 [[2, 1, 2]] = Some res"
    and rest: "subseq ss (map ic (raster 3 1 (length [[2, 1, 2 :: 8 word]])))"
     "counter_of res = 3 + length ss"
     "\<forall>i < length ss. ss ! i \<in> fgset 3 1 [[2, 1, 2]] \<and> 3 + i < seedVal \<and>
        {q \<in> fgset 3 1 [[2, 1, 2]]. vox 3 (planes_of res) q = Some (3 + i)}
          = region (fgset 3 1 [[2, 1, 2]]) (ss ! i)"
     "\<forall>i < length ss. \<forall>j < length ss. i < j \<longrightarrow>
        region (fgset 3 1 [[2, 1, 2]]) (ss ! i) \<inter> region (fgset 3 1 [[2, 1, 2]]) (ss ! j) = {}"
     "\<forall>q. inb 3 1 (length [[2, 1, 2 :: 8 word]]) q \<and>
           (\<forall>i < length ss. q \<notin> region (fgset 3 1 [[2, 1, 2]]) (ss ! i)) \<longrightarrow>
        vox 3 (planes_of res) q = vox 3 [[2, 1, 2]] q"
     "finished res \<longrightarrow> counter_of res < seedVal \<and>
        (\<forall>q \<in> fgset 3 1 [[2, 1, 2]]. \<exists>i < length ss. q \<in> region (fgset 3 1 [[2, 1, 2]]) (ss ! i))"
     "\<not> finished res \<longrightarrow> counter_of res = seedVal"
    by blast
  from r e have res: "res = Finished [[3, 1, 4]] 5" by simp
  have f: "finished (Finished [[3, 1, 4]] 5)" by simp
  from rest f e show ?thesis unfolding res by blast
qed

text \<open>
  Claim C8. When no voxel inside the grid holds the foreground value 2, the labeling pass
  ends with the counter still at 3 and with the planes it was given, every byte unchanged;
  the loader goes on to the upload with those planes and a component count of 0.
\<close>

theorem no_foreground_no_components:
  assumes "\<forall>p. inb W H (length g) p \<longrightarrow> vox W g p \<noteq> Some foreground"
  shows "label_pass W H g = Some (Finished g 3) \<and>
         label_and_upload e W H bpp g this
           = Some (upload e W H (length g) bpp g (this\<lparr> numLabelsFound := 0 \<rparr>))"
proof -
  have "\<forall>p \<in> set (raster W H (length g)). vox W g (ic p) \<noteq> Some foreground"
    using assms in_grid_raster [of W H "length g"] unfolding in_grid_def by blast
  then have "label_pass W H g = Some (Finished g 3)"
    unfolding label_pass_def by (rule scan_no_foreground)
  then show ?thesis by (simp add: label_and_upload_def)
qed

theorem no_foreground_no_components_witness:
  "\<not> (\<exists>p. inb 2 1 (length [[1, 0 :: 8 word]]) p \<and> vox 2 [[1, 0]] p = Some foreground) \<and>
   label_pass 2 1 [[1, 0]] = Some (Finished [[1, 0]] 3) \<and>
   label_and_upload (env_plain DecodeRaises) 2 1 8 [[1, 0]] loader_busy
     = Some (upload (env_plain DecodeRaises) 2 1 (length [[1, 0 :: 8 word]]) 8 [[1, 0]]
               (loader_busy\<lparr> numLabelsFound := 0 \<rparr>))"
proof -
  have h: "\<forall>p. inb 2 1 (length [[1, 0 :: 8 word]]) p \<longrightarrow> vox 2 [[1, 0]] p \<noteq> Some foreground"
  proof (intro allI impI)
    fix p :: coord
    assume "inb 2 1 (length [[1, 0 :: 8 word]]) p"
    then have "p = (0, 0, 0) \<or> p = (1, 0, 0)"
      by (cases p) (auto simp: inb_def)
    then obtain x where "p = (x, 0, 0)" "x = 0 \<or> x = 1"
      by auto
    then show "vox 2 [[1, 0]] p \<noteq> Some foreground"
      by (auto simp: vox_def rd_def foreground_def)
  qed
  from no_foreground_no_components [OF h, of "env_plain DecodeRaises" 8 loader_busy] h
  show ?thesis by blast
qed

text \<open>
  Claim C9. When some item of the list is neither a \<^verbatim>\<open>File\<close> nor a
  \<^verbatim>\<open>FileSystemFileHandle\<close>, the load request itself ends the session: no read is
  started (neither \<^verbatim>\<open>getFile\<close> nor \<^verbatim>\<open>readAsArrayBuffer\<close> is called), the loader is marked
  done, its error text is set, and the completion callback, when one was given, is called
  exactly once, with that error.
\<close>

theorem invalid_item_fails_synchronously:
  assumes "\<exists>f \<in> set imgFiles. f \<noteq> File \<and> f \<noteq> FileSystemFileHandle"
  shows "\<exists>this. loadImagesIntoVolume imgFiles completionCb progressCb this0 = (this, False) \<and>
           session e imgFiles completionCb progressCb this0 = Some this \<and>
           done' this \<and>
           errors this = Some ''LabelLoader: Invalid item in file list.'' \<and>
           reads_started this = 0 \<and>
           completions this =
             (if completionCb
              then [\<lparr> r_done = True, r_errors = Some ''LabelLoader: Invalid item in file list.'',
                      r_warnings = None, r_numLabelsFound = 0 \<rparr>]
              else [])"
proof -
  from assms have ne: "imgFiles \<noteq> []" by auto
  from assms have bad: "list_ex (\<lambda>f. f \<noteq> FileSystemFileHandle \<and> f \<noteq> File) imgFiles"
    by (auto simp: list_ex_iff)
  show ?thesis using ne bad
    by (simp add: session_def loadImagesIntoVolume_def SafeInvoke_complete_def emit_def
          report_of_def completions_def reads_started_def)
qed

theorem invalid_item_fails_synchronously_witness:
  "(\<exists>f \<in> set [File, OtherItem]. f \<noteq> File \<and> f \<noteq> FileSystemFileHandle) \<and>
   (\<exists>this. loadImagesIntoVolume [File, OtherItem] True True loader_new = (this, False) \<and>
           session (env_plain DecodeRaises) [File, OtherItem] True True loader_new = Some this \<and>
           done' this \<and>
           errors this = Some ''LabelLoader: Invalid item in file list.'' \<and>
           reads_started this = 0 \<and>
           completions this =
              [\<lparr> r_done = True, r_errors = Some ''LabelLoader: Invalid item in file list.'',
                      r_warnings = None, r_numLabelsFound = 0 \<rparr>])"
proof -
  have h: "\<exists>f \<in> set [File, OtherItem]. f \<noteq> File \<and> f \<noteq> FileSystemFileHandle" by simp
  from invalid_item_fails_synchronously [OF h, of True True loader_new "env_plain DecodeRaises"] h
  show ?thesis by simp
qed

text \<open>
  Claim C10. For a start voxel inside the grid that holds the foreground value, and a
  counter from 3 to 254 (the values the scan uses), the worklist loop started by lines 139
  and 140 terminates, ends with an empty worklist, and has pushed no coordinate twice; all
  pushed coordinates lie inside the grid.
\<close>

theorem worklist_pushes_once_and_terminates:
  assumes "x < W" "y < H" "z < length g"
    and "rd (g ! z) (int (y * W + x)) = Some foreground"
    and "3 \<le> compValue" "compValue < seedVal"
  shows "\<exists>s. flood W H (length g) compValue
               \<lparr> bufs = g[z := wr (g ! z) (int (y * W + x)) seedVal],
                 seeds = [(int x, int y, int z)],
                 pushed = [(int x, int y, int z)] \<rparr> = Some s \<and>
             seeds s = [] \<and> distinct (pushed s) \<and>
             (\<forall>p \<in> set (pushed s). inb W H (length g) p)"
proof -
  have inb: "inb W H (length g) (ic (x, y, z))"
    using assms(1-3) by (simp add: inb_def ic_def)
  have c: "compValue mod 256 \<noteq> 2" using assms(5,6) by (simp add: seedVal_def)
  have st: "\<lparr> bufs = g[z := wr (g ! z) (int (y * W + x)) seedVal],
              seeds = [(int x, int y, int z)], pushed = [(int x, int y, int z)] \<rparr>
            = seeded W g (ic (x, y, z))"
    by (simp add: seeded_def ic_def put_def)
  from flood_tidy [OF seeded_tidy [OF inb] c] show ?thesis
    unfolding st by (auto simp: tidy_def)
qed

theorem worklist_pushes_once_and_terminates_witness:
  "(0::nat) < 3 \<and> (0::nat) < 1 \<and> 0 < length [[2, 2, 1 :: 8 word]] \<and>
   rd ([[2, 2, 1]] ! 0) (int (0 * 3 + 0)) = Some foreground \<and> (3::nat) \<le> 3 \<and> 3 < seedVal \<and>
   (\<exists>s. flood 3 1 (length [[2, 2, 1 :: 8 word]]) 3
               \<lparr> bufs = [[2, 2, 1]][0 := wr ([[2, 2, 1]] ! 0) (int (0 * 3 + 0)) seedVal],
                 seeds = [(int 0, int 0, int 0)],
                 pushed = [(int 0, int 0, int 0)] \<rparr> = Some s \<and>
             seeds s = [] \<and> distinct (pushed s) \<and>
             (\<forall>p \<in> set (pushed s). inb 3 1 (length [[2, 2, 1 :: 8 word]]) p))"
proof -
  have h: "rd ([[2, 2, 1]] ! 0) (int (0 * 3 + 0)) = Some foreground"
    by (simp add: rd_def foreground_def)
  have c: "3 < seedVal" by (simp add: seedVal_def)
  from worklist_pushes_once_and_terminates [of 0 3 0 1 0 "[[2, 2, 1]]" 3, OF _ _ _ h _ c] h c
  show ?thesis by simp
qed

end
